theory Spec2Isabelle
  imports Main "HOL-Library.AList"
begin

section \<open>Mars rover exploration: battery-constrained surface mapping\<close>

text \<open>
  A shallow embedding of \<^verbatim>\<open>src/main.py\<close>: the layered breadth-first explorer
  \<^verbatim>\<open>map_surface_with_battery_constraint\<close>, its helpers, and the map assembly
  (\<^verbatim>\<open>_sparse_to_dense\<close>, \<^verbatim>\<open>_trim_unknown_border\<close>).

  Python dictionaries are association lists in insertion order (\<open>AList.update\<close> keeps the
  place of an existing key and appends a new one, as a Python dict does). Python integers
  are \<open>int\<close>. The classes \<^verbatim>\<open>Rover\<close> and \<^verbatim>\<open>Planet\<close> are imported by
  \<^verbatim>\<open>main.py\<close> from modules that are not part of the sources at hand, so the explorer
  takes the rover as a parameter: a state of any type \<open>'r\<close>, a function for
  \<^verbatim>\<open>rover.move(d)\<close> and a function for \<^verbatim>\<open>rover.get_current_location()\<close>.
\<close>

subsection \<open>Coordinates, directions, constants\<close>

type_synonym coord = "int \<times> int"

text \<open>The keys \<^verbatim>\<open>'N'\<close>, \<^verbatim>\<open>'S'\<close>, \<^verbatim>\<open>'E'\<close>, \<^verbatim>\<open>'W'\<close> of \<^verbatim>\<open>DIRS\<close>.\<close>

datatype dir = North | South | East | West

definition FULL_BATTERY :: int where
  "FULL_BATTERY = 20"

text \<open>\<^verbatim>\<open>DIRS = {'N': (-1, 0), 'S': (1, 0), 'E': (0, 1), 'W': (0, -1)}\<close>, in insertion order.\<close>

definition DIRS :: "(dir \<times> coord) list" where
  "DIRS = [(North, (-1, 0)), (South, (1, 0)), (East, (0, 1)), (West, (0, -1))]"

fun OPPOSITE :: "dir \<Rightarrow> dir" where
  "OPPOSITE North = South"
| "OPPOSITE South = North"
| "OPPOSITE East = West"
| "OPPOSITE West = East"

text \<open>\<^verbatim>\<open>DIRS[d]\<close>\<close>

definition delta :: "dir \<Rightarrow> coord" where
  "delta d = (case map_of DIRS d of Some v \<Rightarrow> v | None \<Rightarrow> (0, 0))"

text \<open>\<^verbatim>\<open>home = (0, 0)\<close>, a local of the explorer.\<close>

definition home :: coord where
  "home = (0, 0)"

subsection \<open>Outcomes of a call\<close>

text \<open>
  The only exception the explorer itself can raise is the \<^verbatim>\<open>KeyError\<close> of
  \<^verbatim>\<open>parents[cur]\<close>; the only loop without a bound of its own is the one of
  \<^verbatim>\<open>_reconstruct_path\<close>.
\<close>

datatype error = KeyError

datatype 'a outcome = Returns 'a | Raises error | Diverges

subsection \<open>Dictionaries\<close>

type_synonym ('k, 'v) dict = "('k \<times> 'v) list"

text \<open>\<^verbatim>\<open>k in d\<close>\<close>

definition dict_has :: "('k, 'v) dict \<Rightarrow> 'k \<Rightarrow> bool" where
  "dict_has d k = (map_of d k \<noteq> None)"

text \<open>\<^verbatim>\<open>d[k] = v\<close>\<close>

definition dict_set :: "('k, 'v) dict \<Rightarrow> 'k \<Rightarrow> 'v \<Rightarrow> ('k, 'v) dict" where
  "dict_set d k v = AList.update k v d"

subsection \<open>The rover interface\<close>

text \<open>
  \<^verbatim>\<open>rover.move(d)\<close> returns \<^verbatim>\<open>(success, reason)\<close> and changes the rover;
  the reason is \<^verbatim>\<open>None\<close> or a string. \<^verbatim>\<open>rover.get_current_location()\<close>
  returns a terrain symbol.
\<close>

type_synonym reason = "string option"

type_synonym 'r move_fn = "'r \<Rightarrow> dir \<Rightarrow> (bool \<times> reason) \<times> 'r"

type_synonym 'r loc_fn = "'r \<Rightarrow> char"

subsection \<open>Helper functions\<close>

text \<open>\<^verbatim>\<open>_neighbours(pos)\<close>: the generator's items, in the order of \<^verbatim>\<open>DIRS\<close>.\<close>

fun neighbours :: "coord \<Rightarrow> (dir \<times> coord) list" where
  "neighbours (r, c) = map (\<lambda>(d, (dr, dc)). (d, (r + dr, c + dc))) DIRS"

text \<open>\<^verbatim>\<open>_manhattan(a, b)\<close>\<close>

fun manhattan :: "coord \<Rightarrow> coord \<Rightarrow> int" where
  "manhattan (a0, a1) (b0, b1) = \<bar>a0 - b0\<bar> + \<bar>a1 - b1\<bar>"

text \<open>\<^verbatim>\<open>_roundtrip_cost(path_to_tile, nbr, home)\<close>\<close>

definition roundtrip_cost :: "dir list \<Rightarrow> coord \<Rightarrow> coord \<Rightarrow> int" where
  "roundtrip_cost path_to_tile nbr hm = int (length path_to_tile) + 1 + manhattan nbr hm"

text \<open>\<^verbatim>\<open>_reverse_path(path)\<close>\<close>

definition reverse_path :: "dir list \<Rightarrow> dir list" where
  "reverse_path path = map OPPOSITE (rev path)"

text \<open>\<^verbatim>\<open>_travel(rover, path)\<close>: the results of the moves are dropped.\<close>

fun travel :: "'r move_fn \<Rightarrow> 'r \<Rightarrow> dir list \<Rightarrow> 'r" where
  "travel mv rover [] = rover"
| "travel mv rover (d # path) = travel mv (snd (mv rover d)) path"

text \<open>
  The inner \<^verbatim>\<open>for\<close> of \<^verbatim>\<open>_reconstruct_path\<close>: the first direction of \<^verbatim>\<open>DIRS\<close>
  that leads from \<^verbatim>\<open>prev\<close> to \<^verbatim>\<open>cur\<close> is appended; when there is none the path stays.
\<close>

fun step_dir :: "coord \<Rightarrow> coord \<Rightarrow> dir list \<Rightarrow> dir list" where
  "step_dir (p0, p1) cur path =
     (case find (\<lambda>(d, (dr, dc)). (p0 + dr, p1 + dc) = cur) DIRS of
        None \<Rightarrow> path
      | Some (d, _) \<Rightarrow> path @ [d])"

text \<open>
  The \<^verbatim>\<open>while parents[cur]:\<close> loop. A parent is \<^verbatim>\<open>None\<close> (falsy) or a pair
  (a non-empty tuple, truthy). A missing key raises; a cycle of parents never returns,
  which is the value \<open>None\<close>.
\<close>

partial_function (option) reconstruct_loop ::
  "(coord, coord option) dict \<Rightarrow> coord \<Rightarrow> dir list \<Rightarrow> (error + dir list) option" where
  "reconstruct_loop parents cur path =
     (case map_of parents cur of
        None \<Rightarrow> Some (Inl KeyError)
      | Some None \<Rightarrow> Some (Inr path)
      | Some (Some prev) \<Rightarrow> reconstruct_loop parents prev (step_dir prev cur path))"

declare reconstruct_loop.simps [code]

text \<open>\<^verbatim>\<open>_reconstruct_path(target, parents)\<close>\<close>

definition reconstruct_path :: "coord \<Rightarrow> (coord, coord option) dict \<Rightarrow> dir list outcome" where
  "reconstruct_path target parents =
     (case reconstruct_loop parents target [] of
        None \<Rightarrow> Diverges
      | Some (Inl e) \<Rightarrow> Raises e
      | Some (Inr path) \<Rightarrow> Returns (rev path))"

subsection \<open>Map assembly\<close>

type_synonym grid = "char list list"

text \<open>\<^verbatim>\<open>in_bounds = [pos for pos, ch in explored.items() if ch != 'X']\<close>\<close>

definition in_bounds :: "(coord, char) dict \<Rightarrow> coord list" where
  "in_bounds explored = map fst (filter (\<lambda>(pos, ch). ch \<noteq> CHR ''X'') explored)"

text \<open>
  \<^verbatim>\<open>min(rows), max(rows), min(cols), max(cols)\<close> of the non-empty list
  \<^verbatim>\<open>in_bounds\<close>, here \<open>p # ps\<close>.
\<close>

definition bounds :: "coord \<Rightarrow> coord list \<Rightarrow> int \<times> int \<times> int \<times> int" where
  "bounds p ps =
     (fold min (map fst ps) (fst p), fold max (map fst ps) (fst p),
      fold min (map snd ps) (snd p), fold max (map snd ps) (snd p))"

text \<open>The body of the loop that writes the entries into the grid (lines 217 to 219).\<close>

definition put :: "int \<Rightarrow> int \<Rightarrow> int \<Rightarrow> int \<Rightarrow> coord \<times> char \<Rightarrow> grid \<Rightarrow> grid" where
  "put min_r min_c h w e g =
     (case e of ((r, c), ch) \<Rightarrow>
        (let rr = r - min_r; cc = c - min_c
         in if 0 \<le> rr \<and> rr < h \<and> 0 \<le> cc \<and> cc < w
            then g[nat rr := (g ! nat rr)[nat cc := ch]]
            else g))"

text \<open>Lines 211 to 219: the grid before trimming, for \<^verbatim>\<open>in_bounds\<close> \<open>= p # ps\<close>.\<close>

definition fill_grid :: "coord \<Rightarrow> coord list \<Rightarrow> (coord, char) dict \<Rightarrow> grid" where
  "fill_grid p ps explored =
     (case bounds p ps of (min_r, max_r, min_c, max_c) \<Rightarrow>
        (let h = max_r - min_r + 1; w = max_c - min_c + 1;
             g = replicate (nat h) (replicate (nat w) (CHR ''?''))
         in fold (put min_r min_c h w) explored g))"

text \<open>\<^verbatim>\<open>all(ch == '?' for ch in row)\<close>\<close>

definition all_unknown :: "char list \<Rightarrow> bool" where
  "all_unknown row = list_all (\<lambda>ch. ch = CHR ''?'') row"

text \<open>\<^verbatim>\<open>while grid and all(ch == '?' for ch in grid[0]): grid.pop(0)\<close>\<close>

fun pop_front_unknown :: "grid \<Rightarrow> grid" where
  "pop_front_unknown [] = []"
| "pop_front_unknown (row # g) = (if all_unknown row then pop_front_unknown g else row # g)"

text \<open>\<^verbatim>\<open>while grid and all(ch == '?' for ch in grid[-1]): grid.pop()\<close>\<close>

function pop_back_unknown :: "grid \<Rightarrow> grid" where
  "pop_back_unknown g =
     (if g \<noteq> [] \<and> all_unknown (last g) then pop_back_unknown (butlast g) else g)"
  by pat_completeness auto
termination
  by (relation "measure length") auto

text \<open>
  \<^verbatim>\<open>list(map(list, zip(*grid)))\<close>: \<^verbatim>\<open>zip\<close> stops with the shortest row, and
  \<^verbatim>\<open>zip()\<close> of no rows is empty.
\<close>

definition zip_star :: "grid \<Rightarrow> grid" where
  "zip_star g =
     (case g of
        [] \<Rightarrow> []
      | row # rows \<Rightarrow>
          map (\<lambda>j. map (\<lambda>r. r ! j) (row # rows)) [0..<fold min (map length rows) (length row)])"

text \<open>\<^verbatim>\<open>_trim_unknown_border(grid)\<close>\<close>

definition trim_unknown_border :: "grid \<Rightarrow> grid" where
  "trim_unknown_border grid =
     (let g = pop_back_unknown (pop_front_unknown grid)
      in if g = [] then [[]]
         else zip_star (pop_back_unknown (pop_front_unknown (zip_star g))))"

text \<open>\<^verbatim>\<open>_sparse_to_dense(explored)\<close>\<close>

definition sparse_to_dense :: "(coord, char) dict \<Rightarrow> grid" where
  "sparse_to_dense explored =
     (case in_bounds explored of
        [] \<Rightarrow> [[]]
      | p # ps \<Rightarrow> trim_unknown_border (fill_grid p ps explored))"

subsection \<open>The explorer\<close>

text \<open>The variables that the loop over the frontier changes.\<close>

record 'r explorer =
  explored :: "(coord, char) dict"
  parents :: "(coord, coord option) dict"
  next_frontier :: "coord list"
  rover :: 'r

text \<open>The body of \<^verbatim>\<open>for d, nbr in _neighbours(tile)\<close> (lines 87 to 99).\<close>

definition probe ::
  "'r move_fn \<Rightarrow> 'r loc_fn \<Rightarrow> coord \<Rightarrow> dir list \<Rightarrow> dir \<times> coord \<Rightarrow> 'r explorer \<Rightarrow> 'r explorer" where
  "probe mv loc tile path dn st =
     (case dn of (d, nbr) \<Rightarrow>
        if dict_has (explored st) nbr then st
        else if roundtrip_cost path nbr home > FULL_BATTERY then st
        else
          (case mv (rover st) d of ((success, reason), rover1) \<Rightarrow>
             if \<not> success then
               (if reason = Some ''Obstructed Space''
                then st\<lparr>explored := dict_set (explored st) nbr (CHR ''X''), rover := rover1\<rparr>
                else st\<lparr>rover := rover1\<rparr>)
             else
               st\<lparr>explored := dict_set (explored st) nbr (loc rover1),
                  parents := dict_set (parents st) nbr (Some tile),
                  next_frontier := next_frontier st @ [nbr],
                  rover := snd (mv rover1 (OPPOSITE d))\<rparr>))"

fun probe_all ::
  "'r move_fn \<Rightarrow> 'r loc_fn \<Rightarrow> coord \<Rightarrow> dir list \<Rightarrow> (dir \<times> coord) list \<Rightarrow> 'r explorer \<Rightarrow> 'r explorer" where
  "probe_all mv loc tile path [] st = st"
| "probe_all mv loc tile path (dn # dns) st =
     probe_all mv loc tile path dns (probe mv loc tile path dn st)"

text \<open>The body of \<^verbatim>\<open>for tile in frontier\<close> (lines 83 to 101).\<close>

definition visit_tile :: "'r move_fn \<Rightarrow> 'r loc_fn \<Rightarrow> coord \<Rightarrow> 'r explorer \<Rightarrow> 'r explorer outcome" where
  "visit_tile mv loc tile st =
     (case reconstruct_path tile (parents st) of
        Diverges \<Rightarrow> Diverges
      | Raises e \<Rightarrow> Raises e
      | Returns path \<Rightarrow>
          (let st1 = st\<lparr>rover := travel mv (rover st) path\<rparr>;
               st2 = probe_all mv loc tile path (neighbours tile) st1
           in Returns (st2\<lparr>rover := travel mv (rover st2) (reverse_path path)\<rparr>)))"

fun layer :: "'r move_fn \<Rightarrow> 'r loc_fn \<Rightarrow> coord list \<Rightarrow> 'r explorer \<Rightarrow> 'r explorer outcome" where
  "layer mv loc [] st = Returns st"
| "layer mv loc (tile # tiles) st =
     (case visit_tile mv loc tile st of
        Returns st' \<Rightarrow> layer mv loc tiles st'
      | Raises e \<Rightarrow> Raises e
      | Diverges \<Rightarrow> Diverges)"

text \<open>
  The \<^verbatim>\<open>while frontier and 2 * (radius + 1) <= FULL_BATTERY\<close> loop. It returns the
  frontier and the radius it stopped with, and the explorer's variables.
\<close>

function explore_loop ::
  "'r move_fn \<Rightarrow> 'r loc_fn \<Rightarrow> coord list \<Rightarrow> int \<Rightarrow> 'r explorer \<Rightarrow> (coord list \<times> int \<times> 'r explorer) outcome" where
  "explore_loop mv loc frontier radius st =
     (if frontier \<noteq> [] \<and> 2 * (radius + 1) \<le> FULL_BATTERY then
        (case layer mv loc frontier (st\<lparr>next_frontier := []\<rparr>) of
           Returns st' \<Rightarrow> explore_loop mv loc (next_frontier st') (radius + 1) st'
         | Raises e \<Rightarrow> Raises e
         | Diverges \<Rightarrow> Diverges)
      else Returns (frontier, radius, st))"
  by pat_completeness auto
termination
  by (relation "measure (\<lambda>(mv, loc, frontier, radius, st). nat (FULL_BATTERY - 2 * radius))")
     (auto simp: FULL_BATTERY_def)

text \<open>
  Lines 73 to 104 of \<^verbatim>\<open>map_surface_with_battery_constraint\<close>; \<open>rover0\<close> is the
  value of \<^verbatim>\<open>Rover(planet)\<close>.
\<close>

definition explore ::
  "'r move_fn \<Rightarrow> 'r loc_fn \<Rightarrow> 'r \<Rightarrow> (coord list \<times> int \<times> 'r explorer) outcome" where
  "explore mv loc rover0 =
     explore_loop mv loc [home] 0
       \<lparr>explored = [(home, loc rover0)], parents = [(home, None)],
        next_frontier = [], rover = rover0\<rparr>"

subsection \<open>The whole function\<close>

text \<open>\<^verbatim>\<open>map_surface_with_battery_constraint(planet)\<close>, with \<open>rover0\<close> for \<^verbatim>\<open>Rover(planet)\<close>.\<close>

definition map_surface_with_battery_constraint ::
  "'r move_fn \<Rightarrow> 'r loc_fn \<Rightarrow> 'r \<Rightarrow> grid outcome" where
  "map_surface_with_battery_constraint mv loc rover0 =
     (case explore mv loc rover0 of
        Returns (frontier, radius, st) \<Rightarrow> Returns (sparse_to_dense (explored st))
      | Raises e \<Rightarrow> Raises e
      | Diverges \<Rightarrow> Diverges)"

subsection \<open>The moves a run attempts\<close>

text \<open>
  An observation of a run, not a part of the program: the calls of \<^verbatim>\<open>rover.move(d)\<close>
  on line 91, each with the neighbour it was made for and what came of it. The states are
  those of the functions above.
\<close>

datatype event = Entered coord char | Obstructed coord | Refused coord reason

definition probe_event ::
  "'r move_fn \<Rightarrow> 'r loc_fn \<Rightarrow> dir list \<Rightarrow> dir \<times> coord \<Rightarrow> 'r explorer \<Rightarrow> event list" where
  "probe_event mv loc path dn st =
     (case dn of (d, nbr) \<Rightarrow>
        if dict_has (explored st) nbr then []
        else if roundtrip_cost path nbr home > FULL_BATTERY then []
        else
          (case mv (rover st) d of ((success, reason), rover1) \<Rightarrow>
             if \<not> success then
               (if reason = Some ''Obstructed Space'' then [Obstructed nbr]
                else [Refused nbr reason])
             else [Entered nbr (loc rover1)]))"

fun probe_all_events ::
  "'r move_fn \<Rightarrow> 'r loc_fn \<Rightarrow> coord \<Rightarrow> dir list \<Rightarrow> (dir \<times> coord) list \<Rightarrow> 'r explorer \<Rightarrow> event list" where
  "probe_all_events mv loc tile path [] st = []"
| "probe_all_events mv loc tile path (dn # dns) st =
     probe_event mv loc path dn st @
     probe_all_events mv loc tile path dns (probe mv loc tile path dn st)"

definition visit_events :: "'r move_fn \<Rightarrow> 'r loc_fn \<Rightarrow> coord \<Rightarrow> 'r explorer \<Rightarrow> event list" where
  "visit_events mv loc tile st =
     (case reconstruct_path tile (parents st) of
        Returns path \<Rightarrow>
          probe_all_events mv loc tile path (neighbours tile)
            (st\<lparr>rover := travel mv (rover st) path\<rparr>)
      | Raises e \<Rightarrow> []
      | Diverges \<Rightarrow> [])"

fun layer_events :: "'r move_fn \<Rightarrow> 'r loc_fn \<Rightarrow> coord list \<Rightarrow> 'r explorer \<Rightarrow> event list" where
  "layer_events mv loc [] st = []"
| "layer_events mv loc (tile # tiles) st =
     visit_events mv loc tile st @
     (case visit_tile mv loc tile st of
        Returns st' \<Rightarrow> layer_events mv loc tiles st'
      | Raises e \<Rightarrow> []
      | Diverges \<Rightarrow> [])"

function explore_loop_events ::
  "'r move_fn \<Rightarrow> 'r loc_fn \<Rightarrow> coord list \<Rightarrow> int \<Rightarrow> 'r explorer \<Rightarrow> event list" where
  "explore_loop_events mv loc frontier radius st =
     (if frontier \<noteq> [] \<and> 2 * (radius + 1) \<le> FULL_BATTERY then
        layer_events mv loc frontier (st\<lparr>next_frontier := []\<rparr>) @
        (case layer mv loc frontier (st\<lparr>next_frontier := []\<rparr>) of
           Returns st' \<Rightarrow> explore_loop_events mv loc (next_frontier st') (radius + 1) st'
         | Raises e \<Rightarrow> []
         | Diverges \<Rightarrow> [])
      else [])"
  by pat_completeness auto
termination
  by (relation "measure (\<lambda>(mv, loc, frontier, radius, st). nat (FULL_BATTERY - 2 * radius))")
     (auto simp: FULL_BATTERY_def)

definition explore_events :: "'r move_fn \<Rightarrow> 'r loc_fn \<Rightarrow> 'r \<Rightarrow> event list" where
  "explore_events mv loc rover0 =
     explore_loop_events mv loc [home] 0
       \<lparr>explored = [(home, loc rover0)], parents = [(home, None)],
        next_frontier = [], rover = rover0\<rparr>"

subsection \<open>A rover on a planet\<close>

text \<open>
  Modelled from the spec: the state of the class \<^verbatim>\<open>Rover\<close>
  (\<^verbatim>\<open>from rover import Rover\<close>), which is not among the sources, with the planet it
  is bound to. The planet is "a fixed 2-D grid of characters with one 'H' (home) cell";
  the battery is "a non-negative integer".
\<close>

record rover_state =
  planet :: "string list"
  position :: coord
  battery :: nat

text \<open>
  Modelled from the spec: the cell of the planet's grid at a coordinate (the class
  \<^verbatim>\<open>Planet\<close> is not among the sources); \<open>None\<close> outside the grid.
\<close>

definition cell_at :: "string list \<Rightarrow> coord \<Rightarrow> char option" where
  "cell_at g p =
     (case p of (r, c) \<Rightarrow>
        if 0 \<le> r \<and> r < int (length g) \<and> 0 \<le> c \<and> c < int (length (g ! nat r))
        then Some (g ! nat r ! nat c) else None)"

text \<open>
  Modelled from the spec: the cells marked \<open>H\<close>, row by row (the missing
  \<^verbatim>\<open>Planet\<close> locates the home cell, as line 48 does for the other explorer).
\<close>

definition home_cells :: "string list \<Rightarrow> coord list" where
  "home_cells g =
     concat (map (\<lambda>r. map (\<lambda>c. (int r, int c))
                        (filter (\<lambda>c. g ! r ! c = CHR ''H'') [0..<length (g ! r)]))
                 [0..<length g])"

text \<open>
  Modelled from the spec: the missing constructor \<^verbatim>\<open>Rover(planet, battery)\<close>. The
  rover starts on the home cell; "default full battery = 20 units when unspecified", so
  \<^verbatim>\<open>Rover(planet)\<close> is \<open>Rover g 20\<close>.
\<close>

definition Rover :: "string list \<Rightarrow> nat \<Rightarrow> rover_state" where
  "Rover g b =
     \<lparr>planet = g, position = (case home_cells g of [] \<Rightarrow> (0, 0) | p # _ \<Rightarrow> p), battery = b\<rparr>"

text \<open>
  Modelled from the spec: the missing method \<^verbatim>\<open>Rover.move\<close>. The spec has the rover
  "decrementing one unit per successful move and refusing moves when battery is exhausted
  or the destination is obstructed"; the reason of a refusal is "Obstructed Space" or
  another one. A destination outside the grid is refused with a reason of its own, as in
  the spec's scenario of the one-row planet, where nothing outside the row is recorded.
\<close>

definition rover_move :: "rover_state move_fn" where
  "rover_move rv d =
     (if battery rv = 0 then ((False, Some ''Insufficient Battery''), rv)
      else
        (case position rv of (r, c) \<Rightarrow>
           (case delta d of (dr, dc) \<Rightarrow>
              (case cell_at (planet rv) (r + dr, c + dc) of
                 None \<Rightarrow> ((False, Some ''Out of Bounds''), rv)
               | Some ch \<Rightarrow>
                   if ch = CHR ''X'' then ((False, Some ''Obstructed Space''), rv)
                   else ((True, None),
                         rv\<lparr>position := (r + dr, c + dc), battery := battery rv - 1\<rparr>)))))"

text \<open>
  Modelled from the spec: the missing method \<^verbatim>\<open>Rover.get_current_location\<close>, the
  "single-character terrain symbol" of the cell the rover is on.
\<close>

definition rover_loc :: "rover_state loc_fn" where
  "rover_loc rv = (case cell_at (planet rv) (position rv) of None \<Rightarrow> CHR ''?'' | Some ch \<Rightarrow> ch)"

subsection \<open>A planet to run on\<close>

text \<open>Eleven rows of three free cells, home in the corner.\<close>

definition open_planet :: "string list" where
  "open_planet =
     [''H..'', ''...'', ''...'', ''...'', ''...'', ''...'', ''...'', ''...'', ''...'', ''...'', ''...'']"

text \<open>One row: home and an obstructed cell to its east.\<close>

definition blocked_planet :: "string list" where
  "blocked_planet = [''HX'']"

text \<open>
  Modelled from the spec: the missing method \<^verbatim>\<open>Rover.move\<close> again, in a second
  reading, for comparison. The spec speaks of an energy budget for every excursion from
  home and does not say how the battery is restored; in this reading a move that enters
  the home cell leaves the battery full, and the rover is otherwise the one above.
\<close>

definition rover_move_recharging :: "rover_state move_fn" where
  "rover_move_recharging rv d =
     (case rover_move rv d of
        ((success, reason), rv') \<Rightarrow>
          if success \<and> rover_loc rv' = CHR ''H''
          then ((success, reason), rv'\<lparr>battery := nat FULL_BATTERY\<rparr>)
          else ((success, reason), rv'))"

section \<open>Properties\<close>

subsection \<open>What the properties are stated with\<close>


text \<open>
  The parent links of \<open>ps\<close> lead from \<open>k\<close> to an entry without a parent, each link
  from a tile to one of its four neighbours; \<open>path\<close> is the directions of the links, from
  that entry to \<open>k\<close>.
\<close>

inductive chain :: "(coord, coord option) dict \<Rightarrow> coord \<Rightarrow> dir list \<Rightarrow> bool"
  for ps :: "(coord, coord option) dict" where
  chain_root: "map_of ps k = Some None \<Longrightarrow> chain ps k []"
| chain_step: "map_of ps k = Some (Some p) \<Longrightarrow> chain ps p path \<Longrightarrow> (d, k) \<in> set (neighbours p)
     \<Longrightarrow> chain ps k (path @ [d])"

text \<open>
  The invariant of the loops, for the frontier \<open>fr\<close> being worked on: the keys of
  \<^verbatim>\<open>explored\<close> are distinct, only home has no parent, every key of \<^verbatim>\<open>parents\<close>
  is explored and linked to home, and the tiles of both frontiers have parents.
\<close>

definition wf_state :: "coord list \<Rightarrow> 'r explorer \<Rightarrow> bool" where
  "wf_state fr st \<longleftrightarrow>
     distinct (map fst (explored st)) \<and>
     (\<forall>k. map_of (parents st) k = Some None \<longrightarrow> k = home) \<and>
     (\<forall>k. dict_has (parents st) k \<longrightarrow> dict_has (explored st) k \<and> (\<exists>path. chain (parents st) k path)) \<and>
     (\<forall>k \<in> set fr. dict_has (parents st) k) \<and>
     (\<forall>k \<in> set (next_frontier st). dict_has (parents st) k)"

text \<open>Every explored coordinate is within Manhattan distance \<open>b\<close> of home.\<close>

definition in_reach :: "int \<Rightarrow> 'r explorer \<Rightarrow> bool" where
  "in_reach b st \<longleftrightarrow> (\<forall>k. dict_has (explored st) k \<longrightarrow> manhattan k home \<le> b)"

text \<open>\<^verbatim>\<open>explored\<close> only gains entries, at its end.\<close>

definition grows :: "'r explorer \<Rightarrow> 'r explorer \<Rightarrow> bool" where
  "grows st st' \<longleftrightarrow> (\<exists>zs. explored st' = explored st @ zs)"

text \<open>
  What an attempted move wrote is in the dictionary \<open>ex\<close>: the symbol of a cell that was
  entered, the marker of one that was obstructed; a move refused for another reason
  wrote nothing.
\<close>

fun recorded :: "(coord, char) dict \<Rightarrow> event \<Rightarrow> bool" where
  "recorded ex (Entered c ch) = (map_of ex c = Some ch)"
| "recorded ex (Obstructed c) = (map_of ex c = Some (CHR ''X''))"
| "recorded ex (Refused c rs) = True"

text \<open>Column \<open>j\<close> of a grid.\<close>

definition column :: "grid \<Rightarrow> nat \<Rightarrow> char list" where
  "column g j = map (\<lambda>row. row ! j) g"

text \<open>Without its leading and its trailing rows that are all \<open>?\<close>.\<close>

definition trim_rows :: "grid \<Rightarrow> grid" where
  "trim_rows g = rev (dropWhile all_unknown (rev (dropWhile all_unknown g)))"

text \<open>The column indices \<open>0..<w\<close> without the leading and the trailing ones whose column is
  all \<open>?\<close>.\<close>

definition kept_columns :: "grid \<Rightarrow> nat \<Rightarrow> nat list" where
  "kept_columns g w =
     rev (dropWhile (\<lambda>j. all_unknown (column g j))
            (rev (dropWhile (\<lambda>j. all_unknown (column g j)) [0..<w])))"

text \<open>Every row cut down to the kept columns.\<close>

definition trim_columns :: "grid \<Rightarrow> nat \<Rightarrow> grid" where
  "trim_columns g w = map (\<lambda>row. map (\<lambda>j. row ! j) (kept_columns g w)) g"

text \<open>The coordinates whose symbol is not \<open>X\<close>.\<close>

definition free_coords :: "(coord, char) dict \<Rightarrow> coord set" where
  "free_coords ex = {pos. \<exists>ch. (pos, ch) \<in> set ex \<and> ch \<noteq> CHR ''X''}"

text \<open>The bounding box of the coordinates that are not obstructed: its least row,\<close>

definition min_row :: "(coord, char) dict \<Rightarrow> int" where
  "min_row ex = Min (fst ` free_coords ex)"

text \<open>its greatest row,\<close>

definition max_row :: "(coord, char) dict \<Rightarrow> int" where
  "max_row ex = Max (fst ` free_coords ex)"

text \<open>its least column,\<close>

definition min_col :: "(coord, char) dict \<Rightarrow> int" where
  "min_col ex = Min (snd ` free_coords ex)"

text \<open>and its greatest column.\<close>

definition max_col :: "(coord, char) dict \<Rightarrow> int" where
  "max_col ex = Max (snd ` free_coords ex)"

text \<open>A coordinate lies in that box.\<close>

definition in_box :: "(coord, char) dict \<Rightarrow> coord \<Rightarrow> bool" where
  "in_box ex pos \<longleftrightarrow>
     min_row ex \<le> fst pos \<and> fst pos \<le> max_row ex \<and> min_col ex \<le> snd pos \<and> snd pos \<le> max_col ex"

text \<open>The grid of lines 211 to 219, before it is trimmed (empty when every coordinate is
  obstructed).\<close>

definition untrimmed :: "(coord, char) dict \<Rightarrow> grid" where
  "untrimmed ex = (case in_bounds ex of [] \<Rightarrow> [] | p # ps \<Rightarrow> fill_grid p ps ex)"

text \<open>A Discovered-Map with two obstructed coordinates outside the box of the others.\<close>

definition sample_map :: "(coord, char) dict" where
  "sample_map =
     [((0, 0), CHR ''H''), ((0, 1), CHR ''.''), ((- 1, 0), CHR ''X''), ((0, 2), CHR ''X''),
      ((1, 1), CHR ''w'')]"

text \<open>A grid with a border of unknown cells.\<close>

definition sample_grid :: grid where
  "sample_grid = [''???'', ''?a?'', ''??b'', ''???'']"

text \<open>The Discovered-Map a run ended with.\<close>

definition explored_of :: "(coord list \<times> int \<times> 'r explorer) outcome \<Rightarrow> (coord, char) dict" where
  "explored_of out = (case out of Returns (fr, rad, st) \<Rightarrow> explored st | Raises e \<Rightarrow> [] | Diverges \<Rightarrow> [])"

declare explore_loop.simps [simp del]

declare explore_loop_events.simps [simp del]

subsection \<open>Dictionaries and parent chains\<close>

lemma dict_has_iff: "dict_has d k \<longleftrightarrow> k \<in> fst ` set d"
  by (simp add: dict_has_def map_of_eq_None_iff)

lemma map_of_dict_set: "map_of (dict_set d k v) k' = (if k' = k then Some v else map_of d k')"
  by (simp add: dict_set_def update_conv')

lemma dict_has_dict_set: "dict_has (dict_set d k v) k' \<longleftrightarrow> k' = k \<or> dict_has d k'"
  by (simp add: dict_has_def map_of_dict_set)


lemma dict_set_fresh: "\<not> dict_has d k \<Longrightarrow> dict_set d k v = d @ [(k, v)]"
  by (induction d) (auto simp: dict_set_def dict_has_def)

lemma chain_dict_set:
  assumes "chain ps k path" and "\<not> dict_has ps n"
  shows "chain (dict_set ps n v) k path"
  using assms
proof (induction rule: chain.induct)
  case (chain_root k)
  then show ?case by (auto intro!: chain.chain_root simp: map_of_dict_set dict_has_def)
next
  case (chain_step k p path d)
  then show ?case by (auto intro!: chain.chain_step simp: map_of_dict_set dict_has_def)
qed

lemma step_dir_neighbour: "(d, k) \<in> set (neighbours p) \<Longrightarrow> step_dir p k acc = acc @ [d]"
  by (cases p) (auto simp: DIRS_def)

lemma reconstruct_loop_chain:
  "chain ps k path \<Longrightarrow> reconstruct_loop ps k acc = Some (Inr (acc @ rev path))"
proof (induction arbitrary: acc rule: chain.induct)
  case (chain_root k)
  then show ?case by (subst reconstruct_loop.simps) simp
next
  case (chain_step k p path d)
  show ?case
    by (subst reconstruct_loop.simps) (simp add: chain_step.hyps(1) chain_step.IH step_dir_neighbour[OF chain_step.hyps(3)])
qed

lemma reconstruct_path_chain: "chain ps k path \<Longrightarrow> reconstruct_path k ps = Returns path"
  by (simp add: reconstruct_path_def reconstruct_loop_chain)





lemma manhattan_neighbour:
  "(d, k) \<in> set (neighbours p) \<Longrightarrow> manhattan k home \<le> manhattan p home + 1"
  by (cases p) (auto simp: DIRS_def home_def)


lemma probe_cases:
  obtains (skip) "probe mv loc tile path (d, nbr) st = st"
  | (refused) r where "\<not> dict_has (explored st) nbr" "probe mv loc tile path (d, nbr) st = st\<lparr>rover := r\<rparr>"
  | (blocked) r where "\<not> dict_has (explored st) nbr"
      "probe mv loc tile path (d, nbr) st = st\<lparr>explored := explored st @ [(nbr, CHR ''X'')], rover := r\<rparr>"
  | (entered) r ch where "\<not> dict_has (explored st) nbr"
      "probe mv loc tile path (d, nbr) st =
         st\<lparr>explored := explored st @ [(nbr, ch)], parents := dict_set (parents st) nbr (Some tile),
            next_frontier := next_frontier st @ [nbr], rover := r\<rparr>"
proof -
  obtain res r1 where res: "mv (rover st) d = (res, r1)"
    by (cases "mv (rover st) d")
  obtain success reason where "res = (success, reason)"
    by (cases res)
  with res have mv: "mv (rover st) d = ((success, reason), r1)"
    by simp
  show thesis
  proof (cases "dict_has (explored st) nbr \<or> roundtrip_cost path nbr home > FULL_BATTERY")
    case True
    then have "probe mv loc tile path (d, nbr) st = st"
      by (cases "dict_has (explored st) nbr") (simp_all add: probe_def)
    then show ?thesis by (rule skip)
  next
    case False
    then have fresh: "\<not> dict_has (explored st) nbr"
      and cost: "\<not> roundtrip_cost path nbr home > FULL_BATTERY" by simp_all
    have unfold: "probe mv loc tile path (d, nbr) st =
       (if \<not> success then
               (if reason = Some ''Obstructed Space''
                then st\<lparr>explored := dict_set (explored st) nbr (CHR ''X''), rover := r1\<rparr>
                else st\<lparr>rover := r1\<rparr>)
             else
               st\<lparr>explored := dict_set (explored st) nbr (loc r1),
                  parents := dict_set (parents st) nbr (Some tile),
                  next_frontier := next_frontier st @ [nbr],
                  rover := snd (mv r1 (OPPOSITE d))\<rparr>)"
      using fresh cost by (simp add: probe_def mv)
    have ds: "dict_set (explored st) nbr v = explored st @ [(nbr, v)]" for v
      by (rule dict_set_fresh[OF fresh])
    show ?thesis
    proof (cases success)
      case True
      then have "probe mv loc tile path (d, nbr) st =
         st\<lparr>explored := explored st @ [(nbr, loc r1)], parents := dict_set (parents st) nbr (Some tile),
            next_frontier := next_frontier st @ [nbr], rover := snd (mv r1 (OPPOSITE d))\<rparr>"
        unfolding unfold ds by simp
      then show ?thesis by (rule entered[OF fresh])
    next
      case no: False
      show ?thesis
      proof (cases "reason = Some ''Obstructed Space''")
        case True
        then have "probe mv loc tile path (d, nbr) st =
            st\<lparr>explored := explored st @ [(nbr, CHR ''X'')], rover := r1\<rparr>"
          unfolding unfold ds using no by simp
        then show ?thesis by (rule blocked[OF fresh])
      next
        case other: False
        then have "probe mv loc tile path (d, nbr) st = st\<lparr>rover := r1\<rparr>"
          unfolding unfold using no by simp
        then show ?thesis by (rule refused[OF fresh])
      qed
    qed
  qed
qed

lemma dict_has_append: "dict_has (d @ [(k, v)]) k' \<longleftrightarrow> dict_has d k' \<or> k' = k"
  by (auto simp: dict_has_iff)

lemma wf_stateD:
  assumes "wf_state fr st"
  shows "distinct (map fst (explored st))"
    and "map_of (parents st) k = Some None \<Longrightarrow> k = home"
    and "dict_has (parents st) k \<Longrightarrow> dict_has (explored st) k"
    and "dict_has (parents st) k \<Longrightarrow> \<exists>path. chain (parents st) k path"
    and "k \<in> set fr \<Longrightarrow> dict_has (parents st) k"
    and "k \<in> set (next_frontier st) \<Longrightarrow> dict_has (parents st) k"
  using assms unfolding wf_state_def by blast+

lemma wf_stateI:
  assumes "distinct (map fst (explored st))"
    and "\<And>k. map_of (parents st) k = Some None \<Longrightarrow> k = home"
    and "\<And>k. dict_has (parents st) k \<Longrightarrow> dict_has (explored st) k"
    and "\<And>k. dict_has (parents st) k \<Longrightarrow> \<exists>path. chain (parents st) k path"
    and "\<And>k. k \<in> set fr \<Longrightarrow> dict_has (parents st) k"
    and "\<And>k. k \<in> set (next_frontier st) \<Longrightarrow> dict_has (parents st) k"
  shows "wf_state fr st"
  unfolding wf_state_def using assms by blast

lemma probe_wf:
  assumes "wf_state fr st" and "dict_has (parents st) tile" and "(d, nbr) \<in> set (neighbours tile)"
  shows "wf_state fr (probe mv loc tile path (d, nbr) st)"
proof (cases rule: probe_cases[of mv loc tile path d nbr st])
  case skip
  then show ?thesis using assms(1) by simp
next
  case (refused r)
  show ?thesis
    unfolding refused(2)
    by (rule wf_stateI) (use wf_stateD[OF assms(1)] in simp_all)
next
  case (blocked r)
  show ?thesis
    unfolding blocked(2)
  proof (rule wf_stateI)
    show "distinct (map fst (explored (st\<lparr>explored := explored st @ [(nbr, CHR ''X'')], rover := r\<rparr>)))"
      using wf_stateD(1)[OF assms(1)] blocked(1) by (simp add: dict_has_iff)
  qed (use wf_stateD[OF assms(1)] in \<open>simp_all add: dict_has_append\<close>)
next
  case (entered r ch)
  let ?P = "dict_set (parents st) nbr (Some tile)"
  let ?st' = "st\<lparr>explored := explored st @ [(nbr, ch)], parents := ?P,
            next_frontier := next_frontier st @ [nbr], rover := r\<rparr>"
  have fresh: "\<not> dict_has (parents st) nbr"
    using entered(1) wf_stateD(3)[OF assms(1)] by blast
  obtain tp where tp: "chain (parents st) tile tp"
    using wf_stateD(4)[OF assms(1) assms(2)] by blast
  have new: "chain ?P nbr (tp @ [d])"
    by (rule chain_step[where p = tile]) (simp_all add: map_of_dict_set chain_dict_set[OF tp fresh] assms(3))
  show ?thesis
    unfolding entered(2)
  proof (rule wf_stateI)
    show "distinct (map fst (explored ?st'))"
      using wf_stateD(1)[OF assms(1)] entered(1) by (simp add: dict_has_iff)
  next
    fix k assume "map_of (parents ?st') k = Some None"
    then have "k \<noteq> nbr" "map_of (parents st) k = Some None"
      by (simp_all add: map_of_dict_set split: if_splits)
    then show "k = home" using wf_stateD(2)[OF assms(1)] by blast
  next
    fix k assume "dict_has (parents ?st') k"
    then have "k = nbr \<or> dict_has (parents st) k" by (simp add: dict_has_dict_set)
    then have "k = nbr \<or> dict_has (explored st) k" using wf_stateD(3)[OF assms(1)] by blast
    then show "dict_has (explored ?st') k" by (auto simp: dict_has_append)
  next
    fix k assume "dict_has (parents ?st') k"
    then consider "k = nbr" | "dict_has (parents st) k" by (auto simp: dict_has_dict_set)
    then show "\<exists>path. chain (parents ?st') k path"
    proof cases
      case 1
      then show ?thesis using new by auto
    next
      case 2
      then obtain kp where "chain (parents st) k kp" using wf_stateD(4)[OF assms(1)] by blast
      then have "chain ?P k kp" by (rule chain_dict_set[OF _ fresh])
      then show ?thesis by auto
    qed
  next
    fix k assume "k \<in> set fr"
    then have "dict_has (parents st) k" by (rule wf_stateD(5)[OF assms(1)])
    then show "dict_has (parents ?st') k" by (simp add: dict_has_dict_set)
  next
    fix k assume "k \<in> set (next_frontier ?st')"
    then have "k = nbr \<or> k \<in> set (next_frontier st)" by auto
    then have "k = nbr \<or> dict_has (parents st) k" using wf_stateD(6)[OF assms(1)] by blast
    then show "dict_has (parents ?st') k" by (auto simp: dict_has_dict_set)
  qed
qed

subsection \<open>The invariant through the loops\<close>

lemma grows_refl: "grows st st"
  by (simp add: grows_def)

lemma grows_trans: "grows a b \<Longrightarrow> grows b c \<Longrightarrow> grows a c"
  by (auto simp: grows_def)

lemma grows_rover [simp]: "grows a (b\<lparr>rover := r\<rparr>) = grows a b" "grows (a\<lparr>rover := r\<rparr>) b = grows a b"
  by (simp_all add: grows_def)

lemma grows_nf [simp]: "grows (a\<lparr>next_frontier := r\<rparr>) b = grows a b"
  by (simp_all add: grows_def)

lemma wf_state_rover [simp]: "wf_state fr (st\<lparr>rover := r\<rparr>) = wf_state fr st"
  by (simp add: wf_state_def)

lemma in_reach_rover [simp]: "in_reach b (st\<lparr>rover := r\<rparr>) = in_reach b st"
  by (simp add: in_reach_def)

lemma in_reach_nf [simp]: "in_reach b (st\<lparr>next_frontier := r\<rparr>) = in_reach b st"
  by (simp add: in_reach_def)

lemma probe_grows: "grows st (probe mv loc tile path (d, nbr) st)"
  by (cases rule: probe_cases[of mv loc tile path d nbr st]) (simp_all add: grows_def)

lemma probe_within:
  assumes "in_reach b st" and "manhattan tile home + 1 \<le> b" and "(d, nbr) \<in> set (neighbours tile)"
  shows "in_reach b (probe mv loc tile path (d, nbr) st)"
proof -
  have "manhattan nbr home \<le> b"
    using manhattan_neighbour[OF assms(3)] assms(2) by simp
  then show ?thesis
    using assms(1)
    by (cases rule: probe_cases[of mv loc tile path d nbr st])
       (auto simp: in_reach_def dict_has_iff)
qed

lemma probe_parents_has:
  "dict_has (parents st) k \<Longrightarrow> dict_has (parents (probe mv loc tile path (d, nbr) st)) k"
  by (cases rule: probe_cases[of mv loc tile path d nbr st]) (auto simp: dict_has_dict_set)

lemma probe_all_inv:
  assumes "set dns \<subseteq> set (neighbours tile)" and "wf_state fr st" and "dict_has (parents st) tile"
    and "in_reach b st" and "manhattan tile home + 1 \<le> b"
  shows "wf_state fr (probe_all mv loc tile path dns st) \<and>
         in_reach b (probe_all mv loc tile path dns st) \<and>
         grows st (probe_all mv loc tile path dns st)"
  using assms
proof (induction dns arbitrary: st)
  case Nil
  then show ?case by (simp add: grows_refl)
next
  case (Cons dn dns)
  obtain d nbr where dn: "dn = (d, nbr)" by (cases dn)
  let ?st = "probe mv loc tile path (d, nbr) st"
  have mem: "(d, nbr) \<in> set (neighbours tile)" using Cons.prems(1) dn by simp
  have 1: "wf_state fr ?st" by (rule probe_wf[OF Cons.prems(2,3) mem])
  have 2: "dict_has (parents ?st) tile" by (rule probe_parents_has[OF Cons.prems(3)])
  have 3: "in_reach b ?st" by (rule probe_within[OF Cons.prems(4,5) mem])
  have "set dns \<subseteq> set (neighbours tile)" using Cons.prems(1) by simp
  from Cons.IH[OF this 1 2 3 Cons.prems(5)] probe_grows[of st mv loc tile path d nbr]
  show ?case by (auto simp: dn intro: grows_trans)
qed

lemma visit_tile_inv:
  assumes "wf_state fr st" and "dict_has (parents st) tile"
    and "in_reach b st" and "manhattan tile home + 1 \<le> b"
  shows "\<exists>st'. visit_tile mv loc tile st = Returns st' \<and> wf_state fr st' \<and> in_reach b st' \<and> grows st st'"
proof -
  obtain path where path: "chain (parents st) tile path"
    using assms(1,2) unfolding wf_state_def by blast
  let ?st1 = "st\<lparr>rover := travel mv (rover st) path\<rparr>"
  have "wf_state fr ?st1" "dict_has (parents ?st1) tile" "in_reach b ?st1"
    using assms by simp_all
  from probe_all_inv[OF subset_refl this assms(4), of mv loc path]
  show ?thesis
    by (simp add: visit_tile_def reconstruct_path_chain[OF path] Let_def)
qed

lemma in_reach_mono: "in_reach b st \<Longrightarrow> b \<le> c \<Longrightarrow> in_reach c st"
  unfolding in_reach_def by (meson order_trans)

lemma in_reachD: "in_reach b st \<Longrightarrow> dict_has (explored st) k \<Longrightarrow> manhattan k home \<le> b"
  unfolding in_reach_def by blast

lemma wf_state_next: "wf_state fr st \<Longrightarrow> wf_state (next_frontier st) st"
  unfolding wf_state_def by blast

lemma wf_state_reset: "wf_state fr st \<Longrightarrow> wf_state fr (st\<lparr>next_frontier := []\<rparr>)"
  unfolding wf_state_def by simp

lemma layer_inv:
  assumes "set tiles \<subseteq> set fr" and "wf_state fr st" and "in_reach b st"
    and "\<forall>k \<in> set fr. manhattan k home + 1 \<le> b"
  shows "\<exists>st'. layer mv loc tiles st = Returns st' \<and> wf_state fr st' \<and> in_reach b st' \<and> grows st st'"
  using assms
proof (induction tiles arbitrary: st)
  case Nil
  then show ?case by (simp add: grows_refl)
next
  case (Cons tile tiles)
  have mem: "tile \<in> set fr" using Cons.prems(1) by simp
  have has: "dict_has (parents st) tile" by (rule wf_stateD(5)[OF Cons.prems(2) mem])
  have near: "manhattan tile home + 1 \<le> b" using Cons.prems(4) mem by blast
  obtain st1 where st1: "visit_tile mv loc tile st = Returns st1" "wf_state fr st1"
      "in_reach b st1" "grows st st1"
    using visit_tile_inv[OF Cons.prems(2) has Cons.prems(3) near, of mv loc] by blast
  have "set tiles \<subseteq> set fr" using Cons.prems(1) by simp
  from Cons.IH[OF this st1(2,3) Cons.prems(4)]
  obtain st2 where st2: "layer mv loc tiles st1 = Returns st2" "wf_state fr st2"
      "in_reach b st2" "grows st1 st2"
    by blast
  have "layer mv loc (tile # tiles) st = Returns st2" by (simp add: st1(1) st2(1))
  moreover have "grows st st2" by (rule grows_trans[OF st1(4) st2(4)])
  ultimately show ?case using st2(2,3) by blast
qed

lemma explore_loop_inv:
  assumes "wf_state fr st" and "in_reach rad st" and "2 * rad \<le> FULL_BATTERY"
  shows "\<exists>fr' rad' st'. explore_loop mv loc fr rad st = Returns (fr', rad', st') \<and>
           wf_state fr' st' \<and> in_reach rad' st' \<and> 2 * rad' \<le> FULL_BATTERY \<and> rad \<le> rad' \<and>
           (fr' = [] \<or> \<not> 2 * (rad' + 1) \<le> FULL_BATTERY) \<and> grows st st'"
  using assms
proof (induction mv loc fr rad st rule: explore_loop.induct)
  case (1 mv loc fr rad st)
  show ?case
  proof (cases "fr \<noteq> [] \<and> 2 * (rad + 1) \<le> FULL_BATTERY")
    case False
    then have "explore_loop mv loc fr rad st = Returns (fr, rad, st)"
      by (subst explore_loop.simps) auto
    then show ?thesis using "1.prems" False by (simp add: grows_refl)
  next
    case True
    let ?st0 = "st\<lparr>next_frontier := []\<rparr>"
    have wf0: "wf_state fr ?st0" by (rule wf_state_reset[OF "1.prems"(1)])
    have r0: "in_reach (rad + 1) ?st0"
      using in_reach_mono[OF "1.prems"(2), of "rad + 1"] by simp
    have near: "\<forall>k \<in> set fr. manhattan k home + 1 \<le> rad + 1"
    proof
      fix k assume "k \<in> set fr"
      then have "dict_has (explored st) k"
        using wf_stateD(3,5)[OF "1.prems"(1)] by blast
      then show "manhattan k home + 1 \<le> rad + 1"
        using in_reachD[OF "1.prems"(2)] by simp
    qed
    obtain st1 where st1: "layer mv loc fr ?st0 = Returns st1" "wf_state fr st1"
        "in_reach (rad + 1) st1" "grows ?st0 st1"
      using layer_inv[OF subset_refl wf0 r0 near, of mv loc] by blast
    have wf1: "wf_state (next_frontier st1) st1" by (rule wf_state_next[OF st1(2)])
    have b1: "2 * (rad + 1) \<le> FULL_BATTERY" using True by simp
    from "1.IH"[OF True st1(1) wf1 st1(3) b1]
    obtain fr' rad' st' where fin:
      "explore_loop mv loc (next_frontier st1) (rad + 1) st1 = Returns (fr', rad', st')"
      "wf_state fr' st'" "in_reach rad' st'" "2 * rad' \<le> FULL_BATTERY" "rad + 1 \<le> rad'"
      "fr' = [] \<or> \<not> 2 * (rad' + 1) \<le> FULL_BATTERY" "grows st1 st'"
      by blast
    have "explore_loop mv loc fr rad st = Returns (fr', rad', st')"
      using True by (subst explore_loop.simps) (simp add: st1(1) fin(1))
    moreover have "grows st st'" using grows_trans[OF st1(4) fin(7)] by simp
    moreover have "rad \<le> rad'" using fin(5) by simp
    ultimately show ?thesis using fin(2,3,4,6) by blast
  qed
qed

lemma wf_state_init:
  "wf_state [home] \<lparr>explored = [(home, ch)], parents = [(home, None)], next_frontier = [], rover = r\<rparr>"
proof (rule wf_stateI)
  fix k
  assume "dict_has (parents \<lparr>explored = [(home, ch)], parents = [(home, None)], next_frontier = [], rover = r\<rparr>) k"
  then have "k = home" by (simp add: dict_has_def split: if_splits)
  then show "\<exists>path. chain (parents \<lparr>explored = [(home, ch)], parents = [(home, None)], next_frontier = [], rover = r\<rparr>) k path"
    by (auto intro!: exI[of _ "[]"] chain_root)
qed (simp_all add: dict_has_def split: if_splits)

lemma in_reach_init:
  "in_reach 0 \<lparr>explored = [(home, ch)], parents = [(home, None)], next_frontier = [], rover = r\<rparr>"
  by (simp add: in_reach_def dict_has_def home_def split: if_splits)

lemma explore_inv:
  "\<exists>fr rad st. explore mv loc rover0 = Returns (fr, rad, st) \<and>
       wf_state fr st \<and> in_reach rad st \<and> 2 * rad \<le> FULL_BATTERY \<and> 0 \<le> rad \<and>
       (fr = [] \<or> \<not> 2 * (rad + 1) \<le> FULL_BATTERY) \<and>
       map_of (explored st) home = Some (loc rover0)"
proof -
  let ?st0 = "\<lparr>explored = [(home, loc rover0)], parents = [(home, None)], next_frontier = [], rover = rover0\<rparr>"
  have b: "2 * (0::int) \<le> FULL_BATTERY" by (simp add: FULL_BATTERY_def)
  have wf: "wf_state [home] ?st0" by (rule wf_state_init)
  have ir: "in_reach 0 ?st0" by (rule in_reach_init)
  from explore_loop_inv[OF wf ir b, of mv loc]
  obtain fr rad st where fin: "explore_loop mv loc [home] 0 ?st0 = Returns (fr, rad, st)"
      "wf_state fr st" "in_reach rad st" "2 * rad \<le> FULL_BATTERY" "0 \<le> rad"
      "fr = [] \<or> \<not> 2 * (rad + 1) \<le> FULL_BATTERY" "grows ?st0 st"
    by blast
  have "map_of (explored st) home = Some (loc rover0)"
    using fin(7) by (auto simp: grows_def)
  then show ?thesis using fin(1-6) unfolding explore_def by blast
qed

subsection \<open>Attempted moves and their entries\<close>

lemma recorded_grows: "recorded (explored st) e \<Longrightarrow> grows st st' \<Longrightarrow> recorded (explored st') e"
  by (cases e) (auto simp: grows_def)

lemma map_of_fresh_append: "\<not> dict_has d k \<Longrightarrow> map_of (d @ [(k, v)]) k = Some v"
  by (simp add: dict_has_def map_add_def)

lemma probe_event_recorded:
  "\<forall>e \<in> set (probe_event mv loc path (d, nbr) st).
      recorded (explored (probe mv loc tile path (d, nbr) st)) e"
proof -
  obtain res r1 where res: "mv (rover st) d = (res, r1)"
    by (cases "mv (rover st) d")
  obtain success reason where "res = (success, reason)"
    by (cases res)
  with res have mv: "mv (rover st) d = ((success, reason), r1)"
    by simp
  show ?thesis
  proof (cases "dict_has (explored st) nbr \<or> roundtrip_cost path nbr home > FULL_BATTERY")
    case True
    then have "probe_event mv loc path (d, nbr) st = []"
      by (cases "dict_has (explored st) nbr") (simp_all add: probe_event_def)
    then show ?thesis by simp
  next
    case False
    then have fresh: "\<not> dict_has (explored st) nbr"
      and cost: "\<not> roundtrip_cost path nbr home > FULL_BATTERY" by simp_all
    have ds: "dict_set (explored st) nbr v = explored st @ [(nbr, v)]" for v
      by (rule dict_set_fresh[OF fresh])
    have ma: "map_of (explored st @ [(nbr, v)]) nbr = Some v" for v
      by (rule map_of_fresh_append[OF fresh])
    show ?thesis
      using fresh cost
      by (simp add: probe_event_def probe_def mv ds ma del: map_of_append)
  qed
qed

lemma probe_all_grows: "grows st (probe_all mv loc tile path dns st)"
proof (induction dns arbitrary: st)
  case Nil
  then show ?case by (simp add: grows_refl)
next
  case (Cons dn dns)
  obtain d nbr where dn: "dn = (d, nbr)" by (cases dn)
  show ?case
    using grows_trans[OF probe_grows[of st mv loc tile path d nbr] Cons.IH]
    by (simp add: dn)
qed

lemma probe_all_events_recorded:
  "\<forall>e \<in> set (probe_all_events mv loc tile path dns st).
      recorded (explored (probe_all mv loc tile path dns st)) e"
proof (induction dns arbitrary: st)
  case Nil
  then show ?case by simp
next
  case (Cons dn dns)
  obtain d nbr where dn: "dn = (d, nbr)" by (cases dn)
  let ?st1 = "probe mv loc tile path (d, nbr) st"
  have "\<forall>e \<in> set (probe_event mv loc path (d, nbr) st).
          recorded (explored (probe_all mv loc tile path dns ?st1)) e"
    using probe_event_recorded[of mv loc path d nbr st tile]
      recorded_grows[OF _ probe_all_grows[of ?st1 mv loc tile path dns]]
    by blast
  with Cons.IH[of ?st1] show ?case by (auto simp: dn)
qed

lemma visit_tile_grows: "visit_tile mv loc tile st = Returns st' \<Longrightarrow> grows st st'"
  using probe_all_grows[of "st\<lparr>rover := r\<rparr>" mv loc tile path "neighbours tile" for r path]
  by (auto simp: visit_tile_def Let_def split: outcome.splits)

lemma visit_events_recorded:
  assumes "visit_tile mv loc tile st = Returns st'"
  shows "\<forall>e \<in> set (visit_events mv loc tile st). recorded (explored st') e"
proof (cases "reconstruct_path tile (parents st)")
  case (Returns path)
  let ?st1 = "st\<lparr>rover := travel mv (rover st) path\<rparr>"
  have st': "st' = (probe_all mv loc tile path (neighbours tile) ?st1)
      \<lparr>rover := travel mv (rover (probe_all mv loc tile path (neighbours tile) ?st1)) (reverse_path path)\<rparr>"
    using assms by (simp add: visit_tile_def Returns Let_def)
  have "visit_events mv loc tile st = probe_all_events mv loc tile path (neighbours tile) ?st1"
    by (simp add: visit_events_def Returns)
  then show ?thesis
    using probe_all_events_recorded[of mv loc tile path "neighbours tile" ?st1]
    by (simp add: st')
next
  case (Raises e)
  then show ?thesis by (simp add: visit_events_def)
next
  case Diverges
  then show ?thesis by (simp add: visit_events_def)
qed

lemma layer_grows: "layer mv loc tiles st = Returns st' \<Longrightarrow> grows st st'"
proof (induction tiles arbitrary: st)
  case Nil
  then show ?case by (simp add: grows_refl)
next
  case (Cons tile tiles)
  then obtain st1 where st1: "visit_tile mv loc tile st = Returns st1"
      "layer mv loc tiles st1 = Returns st'"
    by (auto split: outcome.splits)
  show ?case by (rule grows_trans[OF visit_tile_grows[OF st1(1)] Cons.IH[OF st1(2)]])
qed

lemma layer_events_recorded:
  "layer mv loc tiles st = Returns st' \<Longrightarrow>
     \<forall>e \<in> set (layer_events mv loc tiles st). recorded (explored st') e"
proof (induction tiles arbitrary: st)
  case Nil
  then show ?case by simp
next
  case (Cons tile tiles)
  then obtain st1 where st1: "visit_tile mv loc tile st = Returns st1"
      "layer mv loc tiles st1 = Returns st'"
    by (auto split: outcome.splits)
  have "\<forall>e \<in> set (visit_events mv loc tile st). recorded (explored st') e"
    using visit_events_recorded[OF st1(1)] recorded_grows[OF _ layer_grows[OF st1(2)]] by blast
  with Cons.IH[OF st1(2)] show ?case by (auto simp: st1(1))
qed

lemma explore_loop_grows:
  "explore_loop mv loc fr rad st = Returns (fr', rad', st') \<Longrightarrow> grows st st'"
proof (induction mv loc fr rad st rule: explore_loop.induct)
  case (1 mv loc fr rad st)
  show ?case
  proof (cases "fr \<noteq> [] \<and> 2 * (rad + 1) \<le> FULL_BATTERY")
    case False
    then have "explore_loop mv loc fr rad st = Returns (fr, rad, st)"
      by (subst explore_loop.simps) auto
    with "1.prems" show ?thesis by (simp add: grows_refl)
  next
    case True
    then have unf: "explore_loop mv loc fr rad st =
        (case layer mv loc fr (st\<lparr>next_frontier := []\<rparr>) of
           Returns st' \<Rightarrow> explore_loop mv loc (next_frontier st') (rad + 1) st'
         | Raises e \<Rightarrow> Raises e
         | Diverges \<Rightarrow> Diverges)"
      by (subst explore_loop.simps) auto
    then obtain st1 where st1: "layer mv loc fr (st\<lparr>next_frontier := []\<rparr>) = Returns st1"
        "explore_loop mv loc (next_frontier st1) (rad + 1) st1 = Returns (fr', rad', st')"
      using "1.prems" by (auto split: outcome.splits)
    have "grows st st1" using layer_grows[OF st1(1)] by simp
    then show ?thesis using "1.IH"[OF True st1(1) st1(2)] by (rule grows_trans)
  qed
qed

lemma explore_loop_events_recorded:
  "explore_loop mv loc fr rad st = Returns (fr', rad', st') \<Longrightarrow>
     \<forall>e \<in> set (explore_loop_events mv loc fr rad st). recorded (explored st') e"
proof (induction mv loc fr rad st rule: explore_loop.induct)
  case (1 mv loc fr rad st)
  show ?case
  proof (cases "fr \<noteq> [] \<and> 2 * (rad + 1) \<le> FULL_BATTERY")
    case False
    then have "explore_loop_events mv loc fr rad st = []"
      by (subst explore_loop_events.simps) auto
    then show ?thesis by simp
  next
    case True
    then have unf: "explore_loop mv loc fr rad st =
        (case layer mv loc fr (st\<lparr>next_frontier := []\<rparr>) of
           Returns st' \<Rightarrow> explore_loop mv loc (next_frontier st') (rad + 1) st'
         | Raises e \<Rightarrow> Raises e
         | Diverges \<Rightarrow> Diverges)"
      by (subst explore_loop.simps) auto
    then obtain st1 where st1: "layer mv loc fr (st\<lparr>next_frontier := []\<rparr>) = Returns st1"
        "explore_loop mv loc (next_frontier st1) (rad + 1) st1 = Returns (fr', rad', st')"
      using "1.prems" by (auto split: outcome.splits)
    have ev: "explore_loop_events mv loc fr rad st =
        layer_events mv loc fr (st\<lparr>next_frontier := []\<rparr>) @
        explore_loop_events mv loc (next_frontier st1) (rad + 1) st1"
      using True by (subst explore_loop_events.simps) (simp add: st1(1))
    have "\<forall>e \<in> set (layer_events mv loc fr (st\<lparr>next_frontier := []\<rparr>)). recorded (explored st') e"
      using layer_events_recorded[OF st1(1)] recorded_grows[OF _ explore_loop_grows[OF st1(2)]]
      by blast
    with "1.IH"[OF True st1(1) st1(2)] show ?thesis by (auto simp: ev)
  qed
qed

lemma explore_events_recorded:
  "explore mv loc rover0 = Returns (fr, rad, st) \<Longrightarrow>
     \<forall>e \<in> set (explore_events mv loc rover0). recorded (explored st) e"
  unfolding explore_def explore_events_def by (rule explore_loop_events_recorded)

subsection \<open>Trimming\<close>

lemma pop_front_unknown_eq: "pop_front_unknown g = dropWhile all_unknown g"
  by (induction g) auto

lemma pop_back_unknown_snoc:
  "pop_back_unknown (g @ [row]) = (if all_unknown row then pop_back_unknown g else g @ [row])"
  by (subst pop_back_unknown.simps) simp

lemma pop_back_unknown_Nil: "pop_back_unknown [] = []"
  by (subst pop_back_unknown.simps) simp

lemma pop_back_unknown_eq: "pop_back_unknown g = rev (dropWhile all_unknown (rev g))"
proof (induction g rule: rev_induct)
  case Nil
  then show ?case by (simp add: pop_back_unknown_Nil)
next
  case (snoc row g)
  then show ?case by (simp add: pop_back_unknown_snoc del: pop_back_unknown.simps)
qed

lemma trim_rows_eq: "pop_back_unknown (pop_front_unknown g) = trim_rows g"
  by (simp only: pop_front_unknown_eq pop_back_unknown_eq trim_rows_def)

lemma fold_min_const: "\<forall>x \<in> set xs. x = (w::nat) \<Longrightarrow> fold min xs w = w"
  by (induction xs) auto

lemma zip_star_rect:
  assumes "g \<noteq> []" and "\<forall>row \<in> set g. length row = w"
  shows "zip_star g = map (column g) [0..<w]"
proof -
  obtain row rows where g: "g = row # rows" using assms(1) by (cases g) auto
  have "length row = w" "\<forall>x \<in> set (map length rows). x = w" using assms(2) g by auto
  then have "fold min (map length rows) (length row) = w" using fold_min_const by blast
  then show ?thesis by (simp add: zip_star_def g column_def)
qed

lemma zip_star_columns:
  assumes "js \<noteq> []"
  shows "zip_star (map (column g) js) = map (\<lambda>row. map (\<lambda>j. row ! j) js) g"
proof -
  obtain j js' where js: "js = j # js'" using assms by (cases js) auto
  have "fold min (map length (map (column g) js')) (length g) = length g"
    by (rule fold_min_const) (simp add: column_def)
  then have len: "fold min (map length (map (column g) js')) (length (column g j)) = length g"
    by (simp add: column_def)
  have "zip_star (map (column g) js) =
      map (\<lambda>i. map (\<lambda>col. col ! i) (map (column g) js)) [0..<length g]"
    using len by (simp add: zip_star_def js)
  also have "\<dots> = map (\<lambda>row. map (\<lambda>j. row ! j) js) g"
    by (rule nth_equalityI) (simp_all add: column_def)
  finally show ?thesis .
qed

lemma dropWhile_keeps: "x \<in> set xs \<Longrightarrow> \<not> Q x \<Longrightarrow> x \<in> set (dropWhile Q xs)"
  by (induction xs) auto

lemma trim_rows_sub: "set (trim_rows g) \<subseteq> set g"
proof -
  have "set (trim_rows g) \<subseteq> set (dropWhile all_unknown g)"
    unfolding trim_rows_def using set_dropWhileD by fastforce
  also have "\<dots> \<subseteq> set g" using set_dropWhileD by fastforce
  finally show ?thesis .
qed

lemma trim_rows_hd:
  assumes "trim_rows g \<noteq> []"
  shows "\<not> all_unknown (hd (trim_rows g))"
proof -
  let ?d = "dropWhile all_unknown g"
  let ?ys = "dropWhile all_unknown (rev ?d)"
  have tr: "trim_rows g = rev ?ys" by (simp only: trim_rows_def)
  have d: "?d \<noteq> []"
  proof
    assume "?d = []"
    then have "trim_rows g = []" by (simp only: trim_rows_def dropWhile.simps rev.simps)
    with assms show False by simp
  qed
  then have h: "\<not> all_unknown (hd ?d)" by (rule hd_dropWhile)
  have "rev ?d = takeWhile all_unknown (rev ?d) @ ?ys" by simp
  then have "rev (rev ?d) = rev (takeWhile all_unknown (rev ?d) @ ?ys)" by (rule arg_cong)
  then have split: "?d = rev ?ys @ rev (takeWhile all_unknown (rev ?d))"
    by (simp only: rev_rev_ident rev_append)
  have ne: "rev ?ys \<noteq> []" using assms tr by simp
  have "hd ?d = hd (rev ?ys @ rev (takeWhile all_unknown (rev ?d)))"
    using split by (rule arg_cong)
  also have "\<dots> = hd (rev ?ys)" using ne by (rule hd_append2)
  finally show ?thesis using h tr by simp
qed

lemma kept_columns_nonempty:
  assumes "trim_rows g \<noteq> []" and "\<forall>row \<in> set g. length row = w"
  shows "kept_columns (trim_rows g) w \<noteq> []"
proof -
  let ?g = "trim_rows g"
  let ?Q = "\<lambda>j. all_unknown (column ?g j)"
  have "\<not> all_unknown (hd ?g)" by (rule trim_rows_hd[OF assms(1)])
  then obtain ch where ch: "ch \<in> set (hd ?g)" "ch \<noteq> CHR ''?''"
    by (auto simp: all_unknown_def list_all_iff)
  then obtain j where j: "j < length (hd ?g)" "hd ?g ! j = ch"
    by (auto simp: in_set_conv_nth)
  have "hd ?g \<in> set g" using trim_rows_sub[of g] assms(1) by auto
  then have jw: "j < w" using j(1) assms(2) by auto
  have "hd ?g ! j \<in> set (column ?g j)"
    using assms(1) by (cases ?g) (auto simp: column_def)
  then have nq: "\<not> ?Q j" using j(2) ch(2) by (auto simp: all_unknown_def list_all_iff)
  have "j \<in> set (dropWhile ?Q [0..<w])" using jw nq by (intro dropWhile_keeps) auto
  then have "j \<in> set (rev (dropWhile ?Q [0..<w]))" by simp
  then have "j \<in> set (dropWhile ?Q (rev (dropWhile ?Q [0..<w])))" using nq by (rule dropWhile_keeps)
  then have "dropWhile ?Q (rev (dropWhile ?Q [0..<w])) \<noteq> []" by (metis empty_iff empty_set)
  then show ?thesis unfolding kept_columns_def rev_is_Nil_conv .
qed

lemma trim_transposed:
  "pop_back_unknown (pop_front_unknown (map (column g) [0..<w])) = map (column g) (kept_columns g w)"
  by (simp add: pop_front_unknown_eq pop_back_unknown_eq kept_columns_def dropWhile_map rev_map comp_def
           del: pop_back_unknown.simps)

lemma trim_after_rows:
  assumes "\<forall>row \<in> set g. length row = w" and "trim_rows g \<noteq> []"
  shows "zip_star (pop_back_unknown (pop_front_unknown (zip_star (trim_rows g)))) =
           trim_columns (trim_rows g) w"
proof -
  let ?g = "trim_rows g"
  have rect: "\<forall>row \<in> set ?g. length row = w" using assms(1) trim_rows_sub[of g] by blast
  have z: "zip_star ?g = map (column ?g) [0..<w]" by (rule zip_star_rect[OF assms(2) rect])
  have k: "kept_columns ?g w \<noteq> []" by (rule kept_columns_nonempty[OF assms(2,1)])
  have "zip_star (pop_back_unknown (pop_front_unknown (zip_star ?g))) =
      zip_star (map (column ?g) (kept_columns ?g w))"
    by (simp only: z trim_transposed)
  also have "\<dots> = trim_columns ?g w"
    by (simp only: zip_star_columns[OF k] trim_columns_def)
  finally show ?thesis .
qed

lemma dropWhile_id: "xs \<noteq> [] \<Longrightarrow> \<not> P (hd xs) \<Longrightarrow> dropWhile P xs = xs"
  by (cases xs) simp_all

lemma trim_rows_id:
  assumes "g \<noteq> []" and "\<not> all_unknown (hd g)" and "\<not> all_unknown (last g)"
  shows "trim_rows g = g"
proof -
  have 1: "dropWhile all_unknown g = g" by (rule dropWhile_id[where P = all_unknown, OF assms(1,2)])
  have "rev g \<noteq> []" using assms(1) by simp
  moreover have "\<not> all_unknown (hd (rev g))" using assms(1,3) by (simp add: hd_rev)
  ultimately have 2: "dropWhile all_unknown (rev g) = rev g"
    by (rule dropWhile_id[where P = all_unknown])
  show ?thesis by (simp only: trim_rows_def 1 2 rev_rev_ident)
qed

lemma kept_columns_id:
  assumes "0 < w" and "\<not> all_unknown (column g 0)" and "\<not> all_unknown (column g (w - 1))"
  shows "kept_columns g w = [0..<w]"
proof -
  let ?Q = "\<lambda>j. all_unknown (column g j)"
  have ne: "[0..<w] \<noteq> []" using assms(1) by simp
  have h: "hd [0..<w] = 0" using assms(1) by (simp add: upt_conv_Cons)
  have 1: "dropWhile ?Q [0..<w] = [0..<w]"
    by (rule dropWhile_id[where P = ?Q, OF ne]) (simp only: h assms(2) not_False_eq_True)
  have l: "hd (rev [0..<w]) = w - 1" using assms(1) by (simp add: hd_rev last_upt)
  have "rev [0..<w] \<noteq> []" using ne by simp
  then have 2: "dropWhile ?Q (rev [0..<w]) = rev [0..<w]"
    by (rule dropWhile_id[where P = ?Q]) (simp only: l assms(3) not_False_eq_True)
  show ?thesis by (simp only: kept_columns_def 1 2 rev_rev_ident)
qed

lemma trim_columns_id:
  assumes "\<forall>row \<in> set g. length row = w" and "kept_columns g w = [0..<w]"
  shows "trim_columns g w = g"
proof -
  have "map (\<lambda>j. row ! j) [0..<w] = row" if "row \<in> set g" for row
    using that assms(1) map_nth[of row] by auto
  then have "map (\<lambda>row. map (\<lambda>j. row ! j) [0..<w]) g = map (\<lambda>row. row) g"
    by (intro map_cong) simp_all
  then show ?thesis by (simp add: trim_columns_def assms(2))
qed

subsection \<open>The grid before trimming\<close>

lemma set_in_bounds: "set (in_bounds ex) = free_coords ex"
  by (force simp: in_bounds_def free_coords_def)

lemma finite_free_coords: "finite (free_coords ex)"
  by (simp flip: set_in_bounds)

lemma bounds_eq:
  assumes "in_bounds ex = p # ps"
  shows "bounds p ps = (min_row ex, max_row ex, min_col ex, max_col ex)"
proof -
  have f: "fst ` free_coords ex = set (fst p # map fst ps)"
    and s: "snd ` free_coords ex = set (snd p # map snd ps)"
    using assms by (simp_all flip: set_in_bounds)
  show ?thesis
    unfolding bounds_def min_row_def max_row_def min_col_def max_col_def f s
    by (simp only: Min.set_eq_fold Max.set_eq_fold)
qed

lemma box_nonempty:
  assumes "free_coords ex \<noteq> {}"
  shows "min_row ex \<le> max_row ex" and "min_col ex \<le> max_col ex"
  using assms finite_free_coords[of ex]
  by (simp_all add: min_row_def max_row_def min_col_def max_col_def)

lemma free_in_box: "(pos, ch) \<in> set ex \<Longrightarrow> ch \<noteq> CHR ''X'' \<Longrightarrow> in_box ex pos"
proof -
  assume "(pos, ch) \<in> set ex" "ch \<noteq> CHR ''X''"
  then have "pos \<in> free_coords ex" by (auto simp: free_coords_def)
  then have "fst pos \<in> fst ` free_coords ex" "snd pos \<in> snd ` free_coords ex" by auto
  then show ?thesis
    using finite_free_coords[of ex]
    by (simp add: in_box_def min_row_def max_row_def min_col_def max_col_def)
qed

lemma put_rect:
  assumes "length g = h" and "\<forall>row \<in> set g. length row = w"
  shows "length (put mr mc H W e g) = h \<and> (\<forall>row \<in> set (put mr mc H W e g). length row = w)"
proof -
  obtain r c ch where e: "e = ((r, c), ch)" by (cases e) auto
  show ?thesis
  proof (cases "0 \<le> r - mr \<and> r - mr < H \<and> 0 \<le> c - mc \<and> c - mc < W")
    case False
    then have "put mr mc H W e g = g" by (auto simp: put_def e Let_def)
    then show ?thesis using assms by simp
  next
    case True
    then have eq: "put mr mc H W e g = g[nat (r - mr) := (g ! nat (r - mr))[nat (c - mc) := ch]]"
      by (simp add: put_def e Let_def)
    show ?thesis
    proof (cases "nat (r - mr) < length g")
      case True
      let ?x = "(g ! nat (r - mr))[nat (c - mc) := ch]"
      have "g ! nat (r - mr) \<in> set g" using True by simp
      then have "length ?x = w" using assms(2) by simp
      then have "\<forall>row \<in> insert ?x (set g). length row = w" using assms(2) by simp
      moreover have "set (g[nat (r - mr) := ?x]) \<subseteq> insert ?x (set g)"
        by (rule set_update_subset_insert)
      ultimately have "\<forall>row \<in> set (g[nat (r - mr) := ?x]). length row = w" by blast
      moreover have "length (g[nat (r - mr) := ?x]) = h" using assms(1) by simp
      ultimately show ?thesis unfolding eq by blast
    next
      case False
      then have "g[nat (r - mr) := (g ! nat (r - mr))[nat (c - mc) := ch]] = g"
        by (simp add: list_update_beyond)
      then show ?thesis unfolding eq using assms by simp
    qed
  qed
qed

lemma put_cell:
  assumes "length g = h" and "\<forall>row \<in> set g. length row = w" and "i < h" and "j < w"
  shows "put mr mc (int h) (int w) ((r, c), ch) g ! i ! j =
           (if (r, c) = (mr + int i, mc + int j) then ch else g ! i ! j)"
proof (cases "0 \<le> r - mr \<and> r - mr < int h \<and> 0 \<le> c - mc \<and> c - mc < int w")
  case False
  then have same: "put mr mc (int h) (int w) ((r, c), ch) g = g" by (auto simp: put_def Let_def)
  have "(r, c) \<noteq> (mr + int i, mc + int j)" using False assms(3,4) by auto
  then have "(if (r, c) = (mr + int i, mc + int j) then ch else g ! i ! j) = g ! i ! j"
    by (rule if_not_P)
  then show ?thesis by (simp only: same)
next
  case True
  let ?rr = "nat (r - mr)" and ?cc = "nat (c - mc)"
  have eq: "put mr mc (int h) (int w) ((r, c), ch) g = g[?rr := (g ! ?rr)[?cc := ch]]"
    using True by (simp add: put_def Let_def)
  have rr: "?rr < length g" using True assms(1) by auto
  then have "g ! ?rr \<in> set g" by simp
  then have cc: "?cc < length (g ! ?rr)" using True assms(2) by auto
  have iff: "(r, c) = (mr + int i, mc + int j) \<longleftrightarrow> i = ?rr \<and> j = ?cc" using True by auto
  show ?thesis
  proof (cases "i = ?rr")
    case True
    then show ?thesis unfolding eq iff using rr cc by (simp add: nth_list_update)
  next
    case False
    then show ?thesis unfolding eq iff using rr by (simp add: nth_list_update)
  qed
qed

lemma put_outside:
  "\<not> (mr \<le> r \<and> r < mr + H \<and> mc \<le> c \<and> c < mc + W) \<Longrightarrow> put mr mc H W ((r, c), ch) g = g"
  by (auto simp: put_def Let_def)

lemma fold_put_rect:
  assumes "length g = h" and "\<forall>row \<in> set g. length row = w"
  shows "length (fold (put mr mc H W) ex g) = h \<and>
         (\<forall>row \<in> set (fold (put mr mc H W) ex g). length row = w)"
  using assms
proof (induction ex arbitrary: g)
  case Nil
  then show ?case by simp
next
  case (Cons e ex)
  have "length (put mr mc H W e g) = h \<and> (\<forall>row \<in> set (put mr mc H W e g). length row = w)"
    by (rule put_rect[OF Cons.prems])
  then have a: "length (put mr mc H W e g) = h"
    and b: "\<forall>row \<in> set (put mr mc H W e g). length row = w" by blast+
  from Cons.IH[OF a b] show ?case by simp
qed

lemma fold_put_cell:
  assumes "distinct (map fst ex)" and "length g = h" and "\<forall>row \<in> set g. length row = w"
    and "i < h" and "j < w"
  shows "fold (put mr mc (int h) (int w)) ex g ! i ! j =
           (case map_of ex (mr + int i, mc + int j) of None \<Rightarrow> g ! i ! j | Some ch \<Rightarrow> ch)"
  using assms(1,2,3)
proof (induction ex arbitrary: g)
  case Nil
  then show ?case by simp
next
  case (Cons e ex)
  obtain r c ch where e: "e = ((r, c), ch)" by (cases e) auto
  let ?g = "put mr mc (int h) (int w) e g"
  have rect: "length ?g = h" "\<forall>row \<in> set ?g. length row = w"
    using put_rect[OF Cons.prems(2,3), of mr mc "int h" "int w" e] by blast+
  have dist: "distinct (map fst ex)" and fresh: "(r, c) \<notin> fst ` set ex"
    using Cons.prems(1) by (simp_all add: e)
  have ih: "fold (put mr mc (int h) (int w)) ex ?g ! i ! j =
      (case map_of ex (mr + int i, mc + int j) of None \<Rightarrow> ?g ! i ! j | Some ch \<Rightarrow> ch)"
    by (rule Cons.IH[OF dist rect])
  have cell: "?g ! i ! j = (if (r, c) = (mr + int i, mc + int j) then ch else g ! i ! j)"
    unfolding e by (rule put_cell[OF Cons.prems(2,3) assms(4,5)])
  have step: "fold (put mr mc (int h) (int w)) (e # ex) g ! i ! j =
      fold (put mr mc (int h) (int w)) ex ?g ! i ! j" by simp
  show ?case
  proof (cases "(r, c) = (mr + int i, mc + int j)")
    case True
    then have none: "map_of ex (mr + int i, mc + int j) = None"
      using fresh by (simp add: map_of_eq_None_iff)
    have "fold (put mr mc (int h) (int w)) ex ?g ! i ! j = ch"
      using ih cell True by (simp only: none option.case if_P)
    moreover have "map_of (e # ex) (mr + int i, mc + int j) = Some ch"
      using True by (simp add: e)
    ultimately show ?thesis by (simp only: step option.case)
  next
    case False
    then have "(if (r, c) = (mr + int i, mc + int j) then ch else g ! i ! j) = g ! i ! j"
      by (rule if_not_P)
    then have "?g ! i ! j = g ! i ! j" using cell by (simp only:)
    moreover have "map_of (e # ex) (mr + int i, mc + int j) = map_of ex (mr + int i, mc + int j)"
      using False by (auto simp: e)
    ultimately show ?thesis using ih by (simp only: step)
  qed
qed

lemma untrimmed_eq:
  assumes "free_coords ex \<noteq> {}"
  shows "untrimmed ex =
     fold (put (min_row ex) (min_col ex) (max_row ex - min_row ex + 1) (max_col ex - min_col ex + 1)) ex
       (replicate (nat (max_row ex - min_row ex + 1)) (replicate (nat (max_col ex - min_col ex + 1)) (CHR ''?'')))"
    and "sparse_to_dense ex = trim_unknown_border (untrimmed ex)"
proof -
  obtain p ps where ps: "in_bounds ex = p # ps"
    using assms set_in_bounds[of ex] by (cases "in_bounds ex") auto
  show "untrimmed ex =
     fold (put (min_row ex) (min_col ex) (max_row ex - min_row ex + 1) (max_col ex - min_col ex + 1)) ex
       (replicate (nat (max_row ex - min_row ex + 1)) (replicate (nat (max_col ex - min_col ex + 1)) (CHR ''?'')))"
    by (simp add: untrimmed_def ps fill_grid_def bounds_eq[OF ps] Let_def)
  show "sparse_to_dense ex = trim_unknown_border (untrimmed ex)"
    by (simp add: untrimmed_def sparse_to_dense_def ps)
qed

lemma untrimmed_rect:
  assumes "free_coords ex \<noteq> {}"
  shows "length (untrimmed ex) = nat (max_row ex - min_row ex + 1)"
    and "\<forall>row \<in> set (untrimmed ex). length row = nat (max_col ex - min_col ex + 1)"
  unfolding untrimmed_eq(1)[OF assms]
  using fold_put_rect[of "replicate (nat (max_row ex - min_row ex + 1)) (replicate (nat (max_col ex - min_col ex + 1)) (CHR ''?''))"
      "nat (max_row ex - min_row ex + 1)" "nat (max_col ex - min_col ex + 1)"]
  by simp_all

lemma untrimmed_cell:
  assumes "distinct (map fst ex)" and "free_coords ex \<noteq> {}"
    and "i < nat (max_row ex - min_row ex + 1)" and "j < nat (max_col ex - min_col ex + 1)"
  shows "untrimmed ex ! i ! j =
           (case map_of ex (min_row ex + int i, min_col ex + int j) of
              None \<Rightarrow> CHR ''?'' | Some ch \<Rightarrow> ch)"
proof -
  let ?h = "nat (max_row ex - min_row ex + 1)" and ?w = "nat (max_col ex - min_col ex + 1)"
  let ?g = "replicate ?h (replicate ?w (CHR ''?''))"
  have hw: "int ?h = max_row ex - min_row ex + 1" "int ?w = max_col ex - min_col ex + 1"
    using box_nonempty[OF assms(2)] by simp_all
  have g: "length ?g = ?h" "\<forall>row \<in> set ?g. length row = ?w" by simp_all
  have "fold (put (min_row ex) (min_col ex) (int ?h) (int ?w)) ex ?g ! i ! j =
      (case map_of ex (min_row ex + int i, min_col ex + int j) of None \<Rightarrow> ?g ! i ! j | Some ch \<Rightarrow> ch)"
    by (rule fold_put_cell[OF assms(1) g assms(3,4)])
  moreover have "?g ! i ! j = CHR ''?''" using assms(3,4) by simp
  ultimately have "fold (put (min_row ex) (min_col ex) (int ?h) (int ?w)) ex ?g ! i ! j =
      (case map_of ex (min_row ex + int i, min_col ex + int j) of None \<Rightarrow> CHR ''?'' | Some ch \<Rightarrow> ch)"
    by (simp only:)
  then show ?thesis
    by (simp only: untrimmed_eq(1)[OF assms(2)] hw)
qed

lemma Min_attained:
  fixes f :: "'a \<Rightarrow> int"
  assumes "finite A" and "A \<noteq> {}"
  shows "\<exists>p \<in> A. f p = Min (f ` A)"
proof -
  have "Min (f ` A) \<in> f ` A" by (rule Min_in) (use assms in simp_all)
  then obtain p where p: "Min (f ` A) = f p" "p \<in> A" by (rule imageE)
  show ?thesis by (rule bexI[OF _ p(2)]) (simp only: p(1))
qed

lemma Max_attained:
  fixes f :: "'a \<Rightarrow> int"
  assumes "finite A" and "A \<noteq> {}"
  shows "\<exists>p \<in> A. f p = Max (f ` A)"
proof -
  have "Max (f ` A) \<in> f ` A" by (rule Max_in) (use assms in simp_all)
  then obtain p where p: "Max (f ` A) = f p" "p \<in> A" by (rule imageE)
  show ?thesis by (rule bexI[OF _ p(2)]) (simp only: p(1))
qed

lemma not_all_unknown: "ch \<in> set row \<Longrightarrow> ch \<noteq> CHR ''?'' \<Longrightarrow> \<not> all_unknown row"
  by (auto simp: all_unknown_def list_all_iff)

lemma untrimmed_entry:
  assumes "distinct (map fst ex)" and "((r, c), ch) \<in> set ex" and "in_box ex (r, c)"
    and "free_coords ex \<noteq> {}"
  shows "nat (r - min_row ex) < nat (max_row ex - min_row ex + 1)"
    and "nat (c - min_col ex) < nat (max_col ex - min_col ex + 1)"
    and "untrimmed ex ! nat (r - min_row ex) ! nat (c - min_col ex) = ch"
proof -
  have rng: "min_row ex \<le> r" "r \<le> max_row ex" "min_col ex \<le> c" "c \<le> max_col ex"
    using assms(3) by (simp_all add: in_box_def)
  let ?i = "nat (r - min_row ex)" and ?j = "nat (c - min_col ex)"
  show i: "?i < nat (max_row ex - min_row ex + 1)" and j: "?j < nat (max_col ex - min_col ex + 1)"
    using rng by simp_all
  have rc: "min_row ex + int ?i = r" "min_col ex + int ?j = c" using rng by simp_all
  have "map_of ex (r, c) = Some ch" by (rule map_of_is_SomeI[OF assms(1,2)])
  then show "untrimmed ex ! ?i ! ?j = ch"
    using untrimmed_cell[OF assms(1,4) i j] by (simp only: rc option.case)
qed

lemma trim_untrimmed:
  assumes d: "distinct (map fst ex)" and ne: "free_coords ex \<noteq> {}"
    and known: "\<forall>e \<in> set ex. snd e \<noteq> CHR ''?''"
  shows "trim_unknown_border (untrimmed ex) = untrimmed ex"
proof -
  let ?g = "untrimmed ex"
  let ?h = "nat (max_row ex - min_row ex + 1)" and ?w = "nat (max_col ex - min_col ex + 1)"
  have len: "length ?g = ?h" and rect: "\<forall>row \<in> set ?g. length row = ?w"
    using untrimmed_rect[OF ne] by blast+
  have h: "0 < ?h" and w: "0 < ?w" using box_nonempty[OF ne] by simp_all
  have g: "?g \<noteq> []" using len h by auto
  have fin: "finite (free_coords ex)" by (rule finite_free_coords)
  have cellne: "\<exists>i j. i < ?h \<and> j < ?w \<and> ?g ! i ! j \<noteq> CHR ''?'' \<and>
      i = nat (fst pos - min_row ex) \<and> j = nat (snd pos - min_col ex)"
    if mem: "pos \<in> free_coords ex" for pos
  proof -
    obtain ch where ch: "(pos, ch) \<in> set ex" "ch \<noteq> CHR ''X''"
      using mem by (auto simp: free_coords_def)
    have box: "in_box ex pos" by (rule free_in_box[OF ch])
    have e: "((fst pos, snd pos), ch) \<in> set ex" using ch(1) by simp
    have b: "in_box ex (fst pos, snd pos)" using box by simp
    have "ch \<noteq> CHR ''?''" using known ch(1) by force
    then show ?thesis using untrimmed_entry[OF d e b ne] by blast
  qed
  have rowwit: "\<not> all_unknown (?g ! i)" if "i < ?h" "j < ?w" "?g ! i ! j \<noteq> CHR ''?''" for i j
  proof -
    have "?g ! i \<in> set ?g" using that(1) len by simp
    then have "length (?g ! i) = ?w" using rect by blast
    then have "?g ! i ! j \<in> set (?g ! i)" using that(2) by simp
    then show ?thesis using that(3) by (rule not_all_unknown)
  qed
  have colwit: "\<not> all_unknown (column ?g j)" if "i < ?h" "?g ! i ! j \<noteq> CHR ''?''" for i j
  proof -
    have "column ?g j ! i = ?g ! i ! j" using that(1) len by (simp add: column_def)
    moreover have "i < length (column ?g j)" using that(1) len by (simp add: column_def)
    ultimately have "?g ! i ! j \<in> set (column ?g j)" by (metis nth_mem)
    then show ?thesis using that(2) by (rule not_all_unknown)
  qed
  obtain p1 where p1: "p1 \<in> free_coords ex" "fst p1 = min_row ex"
    unfolding min_row_def using Min_attained[OF fin ne, of fst] by blast
  obtain p2 where p2: "p2 \<in> free_coords ex" "fst p2 = max_row ex"
    unfolding max_row_def using Max_attained[OF fin ne, of fst] by blast
  obtain p3 where p3: "p3 \<in> free_coords ex" "snd p3 = min_col ex"
    unfolding min_col_def using Min_attained[OF fin ne, of snd] by blast
  obtain p4 where p4: "p4 \<in> free_coords ex" "snd p4 = max_col ex"
    unfolding max_col_def using Max_attained[OF fin ne, of snd] by blast
  have first: "\<not> all_unknown (hd ?g)"
  proof -
    obtain i j where ij: "i < ?h" "j < ?w" "?g ! i ! j \<noteq> CHR ''?''"
        "i = nat (fst p1 - min_row ex)"
      using cellne[OF p1(1)] by blast
    have "i = 0" using ij(4) p1(2) by simp
    then have "\<not> all_unknown (?g ! 0)" using rowwit[OF ij(1,2,3)] by simp
    then show ?thesis using g by (simp add: hd_conv_nth)
  qed
  have lst: "\<not> all_unknown (last ?g)"
  proof -
    obtain i j where ij: "i < ?h" "j < ?w" "?g ! i ! j \<noteq> CHR ''?''"
        "i = nat (fst p2 - min_row ex)"
      using cellne[OF p2(1)] by blast
    have "i = ?h - 1" using ij(4) p2(2) box_nonempty(1)[OF ne] by simp
    then have "\<not> all_unknown (?g ! (?h - 1))" using rowwit[OF ij(1,2,3)] by simp
    then show ?thesis using g len by (simp add: last_conv_nth)
  qed
  have c0: "\<not> all_unknown (column ?g 0)"
  proof -
    obtain i j where ij: "i < ?h" "?g ! i ! j \<noteq> CHR ''?''"
        "j = nat (snd p3 - min_col ex)"
      using cellne[OF p3(1)] by blast
    have "j = 0" using ij(3) p3(2) by simp
    then show ?thesis using colwit[OF ij(1,2)] by simp
  qed
  have c1: "\<not> all_unknown (column ?g (?w - 1))"
  proof -
    obtain i j where ij: "i < ?h" "?g ! i ! j \<noteq> CHR ''?''"
        "j = nat (snd p4 - min_col ex)"
      using cellne[OF p4(1)] by blast
    have "j = ?w - 1" using ij(3) p4(2) box_nonempty(2)[OF ne] by simp
    then show ?thesis using colwit[OF ij(1,2)] by simp
  qed
  have tr: "trim_rows ?g = ?g" by (rule trim_rows_id[OF g first lst])
  have kc: "kept_columns ?g ?w = [0..<?w]" by (rule kept_columns_id[OF w c0 c1])
  have "trim_rows ?g \<noteq> []" using g by (simp only: tr not_False_eq_True)
  from trim_after_rows[OF rect this]
  have "trim_unknown_border ?g = trim_columns ?g ?w"
    using g by (simp add: trim_unknown_border_def trim_rows_eq tr Let_def del: pop_back_unknown.simps)
  also have "\<dots> = ?g" by (rule trim_columns_id[OF rect kc])
  finally show ?thesis .
qed

lemma fold_filter_id:
  "(\<And>e g. e \<in> set xs \<Longrightarrow> \<not> P e \<Longrightarrow> f e g = g) \<Longrightarrow> fold f (filter P xs) g = fold f xs g"
  by (induction xs arbitrary: g) simp_all

lemma sample_box:
  "free_coords sample_map \<noteq> {}" "min_row sample_map = 0" "max_row sample_map = 1"
  "min_col sample_map = 0" "max_col sample_map = 1"
  by (simp_all add: min_row_def max_row_def min_col_def max_col_def
        flip: set_in_bounds add: in_bounds_def sample_map_def)

subsection \<open>Runs on the planets above\<close>

lemma map_surface_returns:
  "\<exists>g. map_surface_with_battery_constraint mv loc rover0 = Returns g"
  using explore_inv[of mv loc rover0]
  by (auto simp: map_surface_with_battery_constraint_def)

lemma rover_stranded_recharging:
  "case explore rover_move_recharging rover_loc (Rover open_planet 20) of
     Returns (fr, rad, st) \<Rightarrow> position (rover st) = (2, 0) \<and> battery (rover st) = 0
   | _ \<Rightarrow> False"
  by code_simp


section \<open>The claims\<close>

subsection \<open>Battery feasibility\<close>

text \<open>
  Claim C2. For every rover, on every planet, the explorer returns, and every coordinate
  of the final Discovered-Map, free or obstructed, is within Manhattan distance
  \<open>FULL_BATTERY div 2 = 10\<close> of home.
\<close>

theorem explored_within_half_battery:
  "\<exists>fr rad st. explore mv loc rover0 = Returns (fr, rad, st) \<and>
     (\<forall>k. dict_has (explored st) k \<longrightarrow> manhattan k home \<le> FULL_BATTERY div 2)"
proof -
  obtain fr rad st where run: "explore mv loc rover0 = Returns (fr, rad, st)"
    and reach: "in_reach rad st" and rad: "2 * rad \<le> FULL_BATTERY"
    using explore_inv[of mv loc rover0] by blast
  have "rad \<le> FULL_BATTERY div 2" using rad by simp
  then have "in_reach (FULL_BATTERY div 2) st" by (rule in_reach_mono[OF reach])
  then have "\<forall>k. dict_has (explored st) k \<longrightarrow> manhattan k home \<le> FULL_BATTERY div 2"
    using in_reachD by blast
  with run show ?thesis by blast
qed

theorem explored_within_half_battery_witness:
  "case explore rover_move rover_loc (Rover open_planet 20) of
     Returns (fr, rad, st) \<Rightarrow>
       dict_has (explored st) (3, 0) \<and> manhattan (3, 0) home \<le> FULL_BATTERY div 2
   | _ \<Rightarrow> False"
proof -
  obtain fr rad st where run: "explore rover_move rover_loc (Rover open_planet 20) = Returns (fr, rad, st)"
    and near: "\<forall>k. dict_has (explored st) k \<longrightarrow> manhattan k home \<le> FULL_BATTERY div 2"
    using explored_within_half_battery[of rover_move rover_loc "Rover open_planet 20"] by blast
  have "case explore rover_move rover_loc (Rover open_planet 20) of
          Returns (fr, rad, st) \<Rightarrow> dict_has (explored st) (3, 0) | _ \<Rightarrow> False"
    by code_simp
  then have has: "dict_has (explored st) (3, 0)" by (simp add: run)
  with near have "manhattan (3, 0) home \<le> FULL_BATTERY div 2" by blast
  with has show ?thesis by (simp add: run)
qed

subsection \<open>Termination\<close>

text \<open>
  Claim C4. For every rover, on every planet, the explorer's loop ends and the function
  returns: no call of \<^verbatim>\<open>_reconstruct_path\<close> raises or runs forever. When the loop
  ends, the frontier is empty or \<open>2 * (radius + 1) \<le> FULL_BATTERY\<close> is false, and the
  radius, which starts at 0 and grows by one with each round, is at most
  \<open>FULL_BATTERY div 2\<close>.
\<close>

theorem explore_terminates:
  "\<exists>fr rad st. explore mv loc rover0 = Returns (fr, rad, st) \<and>
     (fr = [] \<or> \<not> 2 * (rad + 1) \<le> FULL_BATTERY) \<and> 0 \<le> rad \<and> rad \<le> FULL_BATTERY div 2"
proof -
  obtain fr rad st where run: "explore mv loc rover0 = Returns (fr, rad, st)"
    and stop: "fr = [] \<or> \<not> 2 * (rad + 1) \<le> FULL_BATTERY"
    and rad: "2 * rad \<le> FULL_BATTERY" "0 \<le> rad"
    using explore_inv[of mv loc rover0] by blast
  have "rad \<le> FULL_BATTERY div 2" using rad(1) by simp
  with run stop rad(2) show ?thesis by blast
qed

theorem explore_terminates_witness:
  "case explore rover_move rover_loc (Rover open_planet 20) of
     Returns (fr, rad, st) \<Rightarrow> fr = [] \<and> rad = 4 \<and> 0 \<le> rad \<and> rad \<le> FULL_BATTERY div 2
   | _ \<Rightarrow> False"
proof -
  obtain fr rad st where run: "explore rover_move rover_loc (Rover open_planet 20) = Returns (fr, rad, st)"
    and bound: "0 \<le> rad \<and> rad \<le> FULL_BATTERY div 2"
    using explore_terminates[of rover_move rover_loc "Rover open_planet 20"] by blast
  have "case explore rover_move rover_loc (Rover open_planet 20) of
          Returns (fr, rad, st) \<Rightarrow> fr = [] \<and> rad = 4 | _ \<Rightarrow> False"
    by code_simp
  then have "fr = [] \<and> rad = 4" by (simp add: run)
  with bound show ?thesis by (simp add: run)
qed

subsection \<open>Path reconstruction\<close>



subsection \<open>Failed probes\<close>

text \<open>
  Claim C6. When the move of a probe fails, the neighbour is recorded as obstructed
  (\<open>X\<close>) if and only if the reason is "Obstructed Space"; for any other reason nothing
  is recorded; in both cases the neighbour is not enqueued. And for every rover the whole
  function returns a map: it never raises.
\<close>

theorem failed_probe:
  assumes "\<not> dict_has (explored st) nbr"
    and "roundtrip_cost path nbr home \<le> FULL_BATTERY"
    and "mv (rover st) d = ((False, reason), rv)"
  shows "probe mv loc tile path (d, nbr) st =
           (if reason = Some ''Obstructed Space''
            then st\<lparr>explored := explored st @ [(nbr, CHR ''X'')], rover := rv\<rparr>
            else st\<lparr>rover := rv\<rparr>) \<and>
         (dict_has (explored (probe mv loc tile path (d, nbr) st)) nbr
            \<longleftrightarrow> reason = Some ''Obstructed Space'') \<and>
         next_frontier (probe mv loc tile path (d, nbr) st) = next_frontier st \<and>
         (\<exists>g. map_surface_with_battery_constraint mv loc start = Returns g)"
proof -
  have eq: "probe mv loc tile path (d, nbr) st =
           (if reason = Some ''Obstructed Space''
            then st\<lparr>explored := explored st @ [(nbr, CHR ''X'')], rover := rv\<rparr>
            else st\<lparr>rover := rv\<rparr>)"
    using assms by (simp add: probe_def dict_set_fresh)
  have "dict_has (explored (probe mv loc tile path (d, nbr) st)) nbr
            \<longleftrightarrow> reason = Some ''Obstructed Space''"
    unfolding eq using assms(1) by (simp add: dict_has_append)
  moreover have "next_frontier (probe mv loc tile path (d, nbr) st) = next_frontier st"
    unfolding eq by simp
  ultimately show ?thesis using eq map_surface_returns[of mv loc start] by blast
qed

theorem failed_probe_witness:
  "\<not> dict_has [(home, CHR ''H'')] (0, 1) \<and>
   roundtrip_cost [] (0, 1) home \<le> FULL_BATTERY \<and>
   rover_move (Rover blocked_planet 20) East = ((False, Some ''Obstructed Space''), Rover blocked_planet 20) \<and>
   probe rover_move rover_loc home [] (East, (0, 1))
     \<lparr>explored = [(home, CHR ''H'')], parents = [(home, None)], next_frontier = [],
      rover = Rover blocked_planet 20\<rparr> =
     \<lparr>explored = [(home, CHR ''H''), ((0, 1), CHR ''X'')], parents = [(home, None)],
      next_frontier = [], rover = Rover blocked_planet 20\<rparr> \<and>
   map_surface_with_battery_constraint rover_move rover_loc (Rover blocked_planet 20) = Returns [''H'']"
proof -
  let ?st = "\<lparr>explored = [(home, CHR ''H'')], parents = [(home, None)], next_frontier = [],
      rover = Rover blocked_planet 20\<rparr>"
  have a: "\<not> dict_has (explored ?st) (0, 1)" by code_simp
  have b: "roundtrip_cost [] (0, 1) home \<le> FULL_BATTERY" by code_simp
  have c: "rover_move (rover ?st) East = ((False, Some ''Obstructed Space''), Rover blocked_planet 20)"
    by code_simp
  have d: "map_surface_with_battery_constraint rover_move rover_loc (Rover blocked_planet 20) = Returns [''H'']"
    by code_simp
  from failed_probe[where st = ?st and nbr = "(0, 1)" and path = "[]" and mv = rover_move
      and d = East and reason = "Some ''Obstructed Space''" and rv = "Rover blocked_planet 20"
      and loc = rover_loc and tile = home and start = "Rover blocked_planet 20", OF a b c]
    a b c d
  show ?thesis by simp
qed

subsection \<open>Entries of attempted moves\<close>

text \<open>
  Claim C3, as stated, fails: on the open planet the move for coordinate \<open>(1, 2)\<close> is
  attempted and refused for want of battery, and the Discovered-Map the run ends with has
  no entry for \<open>(1, 2)\<close>.
\<close>

theorem attempted_without_entry:
  "Refused (1, 2) (Some ''Insufficient Battery'')
     \<in> set (explore_events rover_move rover_loc (Rover open_planet 20)) \<and>
   \<not> dict_has (explored_of (explore rover_move rover_loc (Rover open_planet 20))) (1, 2)"
  by code_simp

text \<open>
  Claim C3, amended. For every rover the run returns, the keys of the final
  Discovered-Map are distinct, home keeps the symbol it was given at the start, and every
  coordinate whose move succeeded or failed with the reason "Obstructed Space" has, at
  the end of the run, the entry that was written when the move was made.
\<close>

theorem attempted_moves_recorded:
  "\<exists>fr rad st. explore mv loc rover0 = Returns (fr, rad, st) \<and>
     distinct (map fst (explored st)) \<and>
     map_of (explored st) home = Some (loc rover0) \<and>
     (\<forall>e \<in> set (explore_events mv loc rover0). recorded (explored st) e)"
proof -
  obtain fr rad st where run: "explore mv loc rover0 = Returns (fr, rad, st)"
    and wf: "wf_state fr st" and hm: "map_of (explored st) home = Some (loc rover0)"
    using explore_inv[of mv loc rover0] by blast
  have "distinct (map fst (explored st))" by (rule wf_stateD(1)[OF wf])
  with run hm explore_events_recorded[OF run] show ?thesis by blast
qed

theorem attempted_moves_recorded_witness:
  "Entered (2, 1) (CHR ''.'') \<in> set (explore_events rover_move rover_loc (Rover open_planet 20)) \<and>
   (case explore rover_move rover_loc (Rover open_planet 20) of
      Returns (fr, rad, st) \<Rightarrow>
        map_of (explored st) (2, 1) = Some (CHR ''.'') \<and> distinct (map fst (explored st))
    | _ \<Rightarrow> False)"
proof -
  obtain fr rad st where run: "explore rover_move rover_loc (Rover open_planet 20) = Returns (fr, rad, st)"
    and dist: "distinct (map fst (explored st))"
    and rec: "\<forall>e \<in> set (explore_events rover_move rover_loc (Rover open_planet 20)). recorded (explored st) e"
    using attempted_moves_recorded[of rover_move rover_loc "Rover open_planet 20"] by blast
  have ev: "Entered (2, 1) (CHR ''.'') \<in> set (explore_events rover_move rover_loc (Rover open_planet 20))"
    by code_simp
  with rec have "recorded (explored st) (Entered (2, 1) (CHR ''.''))" by blast
  then have "map_of (explored st) (2, 1) = Some (CHR ''.'')" by simp
  with ev dist show ?thesis by (simp add: run)
qed

subsection \<open>Where the rover ends\<close>

text \<open>
  Claim C1 says that the rover's final position is home. On the open planet, with the
  rover of the spec and its full battery of 20 units, the run ends with the rover on cell
  \<open>(2, 0)\<close>, two moves from the home cell \<open>(0, 0)\<close> where it started, its battery empty:
  the moves of the way back were refused, and \<^verbatim>\<open>_travel\<close> drops their results.
\<close>

theorem rover_stranded:
  "explore rover_move rover_loc (Rover open_planet 20) =
     Returns ([], 4,
       \<lparr>explored =
          [((0, 0), CHR ''H''), ((1, 0), CHR ''.''), ((0, 1), CHR ''.''),
           ((2, 0), CHR ''.''), ((1, 1), CHR ''.''), ((0, 2), CHR ''.''),
           ((3, 0), CHR ''.''), ((2, 1), CHR ''.'')],
        parents =
          [((0, 0), None), ((1, 0), Some (0, 0)), ((0, 1), Some (0, 0)),
           ((2, 0), Some (1, 0)), ((1, 1), Some (1, 0)), ((0, 2), Some (0, 1)),
           ((3, 0), Some (2, 0)), ((2, 1), Some (2, 0))],
        next_frontier = [],
        rover = \<lparr>planet = open_planet, position = (2, 0), battery = 0\<rparr>\<rparr>) \<and>
   position (Rover open_planet 20) = (0, 0)"
  by code_simp

subsection \<open>Map assembly\<close>

text \<open>
  Claim C7. For a Discovered-Map with distinct keys: when no coordinate is free of
  obstruction the result is the empty map \<open>[[]]\<close>; otherwise the result is the trimmed
  grid whose rows and columns span exactly the bounding box of the coordinates that are
  not obstructed, and each cell of that grid holds the symbol of its coordinate, or
  \<open>?\<close> when the coordinate has no entry.
\<close>

theorem dense_grid_box:
  assumes "distinct (map fst ex)"
  shows "(free_coords ex = {} \<longrightarrow> sparse_to_dense ex = [[]]) \<and>
         (free_coords ex \<noteq> {} \<longrightarrow>
            sparse_to_dense ex = trim_unknown_border (untrimmed ex) \<and>
            length (untrimmed ex) = nat (max_row ex - min_row ex + 1) \<and>
            (\<forall>row \<in> set (untrimmed ex). length row = nat (max_col ex - min_col ex + 1)) \<and>
            (\<forall>i j. i < nat (max_row ex - min_row ex + 1) \<longrightarrow>
                   j < nat (max_col ex - min_col ex + 1) \<longrightarrow>
                   untrimmed ex ! i ! j =
                     (case map_of ex (min_row ex + int i, min_col ex + int j) of
                        None \<Rightarrow> CHR ''?'' | Some ch \<Rightarrow> ch)))"
proof (cases "free_coords ex = {}")
  case True
  then have "in_bounds ex = []" using set_in_bounds[of ex] by simp
  then have "sparse_to_dense ex = [[]]" by (simp add: sparse_to_dense_def)
  with True show ?thesis by simp
next
  case False
  note untrimmed_eq(2)[OF False] untrimmed_rect[OF False] untrimmed_cell[OF assms False]
  with False show ?thesis by blast
qed

theorem dense_grid_box_witness:
  "distinct (map fst sample_map) \<and> free_coords sample_map \<noteq> {} \<and>
   sparse_to_dense sample_map = [''H.'', ''?w''] \<and>
   length (untrimmed sample_map) = 2 \<and>
   untrimmed sample_map ! 1 ! 0 = CHR ''?'' \<and>
   sparse_to_dense [((0, 0), CHR ''X'')] = [[]]"
proof -
  have d: "distinct (map fst sample_map)" by (simp add: sample_map_def)
  have e: "distinct (map fst [((0::int, 0::int), CHR ''X'')])" by simp
  have f: "free_coords [((0, 0), CHR ''X'')] = {}" by (simp add: free_coords_def)
  have none: "map_of sample_map (1, 0) = None" by (simp add: sample_map_def)
  from dense_grid_box[OF d] sample_box
  have len: "length (untrimmed sample_map) = 2"
    and cell: "\<And>i j. i < 2 \<Longrightarrow> j < 2 \<Longrightarrow> untrimmed sample_map ! i ! j =
        (case map_of sample_map (int i, int j) of None \<Rightarrow> CHR ''?'' | Some ch \<Rightarrow> ch)"
    by simp_all
  have "untrimmed sample_map ! 1 ! 0 = CHR ''?''"
    using cell[of 1 0] none by simp
  moreover have "sparse_to_dense sample_map = [''H.'', ''?w'']" by code_simp
  moreover have "sparse_to_dense [((0, 0), CHR ''X'')] = [[]]"
    using dense_grid_box[OF e] f by simp
  ultimately show ?thesis using d sample_box(1) len by simp
qed

text \<open>
  Claim C10. For a Discovered-Map with distinct keys and a coordinate that is not
  obstructed: an entry whose coordinate lies in the bounding box of the coordinates that
  are not obstructed has its marker in its cell of the dense grid; an entry outside the
  box is an obstructed one and is left out, the grid and the result being those of the
  map without it. When no symbol of the map is \<open>?\<close>, trimming removes nothing and
  that grid is the result.
\<close>

theorem markers_in_box:
  assumes "distinct (map fst ex)" and "free_coords ex \<noteq> {}" and "((r, c), ch) \<in> set ex"
  shows "(in_box ex (r, c) \<longrightarrow>
            untrimmed ex ! nat (r - min_row ex) ! nat (c - min_col ex) = ch) \<and>
         (\<not> in_box ex (r, c) \<longrightarrow>
            ch = CHR ''X'' \<and>
            untrimmed (filter (\<lambda>e. fst e \<noteq> (r, c)) ex) = untrimmed ex \<and>
            sparse_to_dense (filter (\<lambda>e. fst e \<noteq> (r, c)) ex) = sparse_to_dense ex) \<and>
         ((\<forall>e \<in> set ex. snd e \<noteq> CHR ''?'') \<longrightarrow> sparse_to_dense ex = untrimmed ex)"
proof -
  have out: "sparse_to_dense ex = untrimmed ex" if "\<forall>e \<in> set ex. snd e \<noteq> CHR ''?''"
    using trim_untrimmed[OF assms(1,2) that] by (simp only: untrimmed_eq(2)[OF assms(2)])
  have cells: "(in_box ex (r, c) \<longrightarrow>
            untrimmed ex ! nat (r - min_row ex) ! nat (c - min_col ex) = ch) \<and>
         (\<not> in_box ex (r, c) \<longrightarrow>
            ch = CHR ''X'' \<and>
            untrimmed (filter (\<lambda>e. fst e \<noteq> (r, c)) ex) = untrimmed ex \<and>
            sparse_to_dense (filter (\<lambda>e. fst e \<noteq> (r, c)) ex) = sparse_to_dense ex)"
  proof (cases "in_box ex (r, c)")
    case True
    then have rng: "min_row ex \<le> r" "r \<le> max_row ex" "min_col ex \<le> c" "c \<le> max_col ex"
      by (simp_all add: in_box_def)
    let ?i = "nat (r - min_row ex)" and ?j = "nat (c - min_col ex)"
    have i: "?i < nat (max_row ex - min_row ex + 1)" and j: "?j < nat (max_col ex - min_col ex + 1)"
      using rng by simp_all
    have rc: "min_row ex + int ?i = r" "min_col ex + int ?j = c" using rng by simp_all
    have "map_of ex (r, c) = Some ch" by (rule map_of_is_SomeI[OF assms(1,3)])
    then have "untrimmed ex ! ?i ! ?j = ch"
      using untrimmed_cell[OF assms(1,2) i j] by (simp only: rc option.case)
    with True show ?thesis by simp
  next
    case False
    let ?P = "\<lambda>e. fst e \<noteq> (r, c)"
    let ?ex = "filter ?P ex"
    have X: "snd e = CHR ''X''" if "e \<in> set ex" and "fst e = (r, c)" for e
    proof (rule ccontr)
      assume "snd e \<noteq> CHR ''X''"
      then have "in_box ex (fst e)" using free_in_box[of "fst e" "snd e" ex] that(1) by simp
      with False that(2) show False by simp
    qed
    have ch: "ch = CHR ''X''" using X[OF assms(3)] by simp
    have "filter (\<lambda>(pos, ch). ch \<noteq> CHR ''X'') ?ex = filter (\<lambda>(pos, ch). ch \<noteq> CHR ''X'') ex"
      unfolding filter_filter by (rule filter_cong) (use X in auto)
    then have ib: "in_bounds ?ex = in_bounds ex" by (simp only: in_bounds_def)
    then have fc: "free_coords ?ex = free_coords ex" by (simp only: flip: set_in_bounds)
    then have box: "min_row ?ex = min_row ex" "max_row ?ex = max_row ex"
        "min_col ?ex = min_col ex" "max_col ?ex = max_col ex"
      by (simp_all only: min_row_def max_row_def min_col_def max_col_def)
    have ne: "free_coords ?ex \<noteq> {}" using assms(2) fc by simp
    have out: "put (min_row ex) (min_col ex) (max_row ex - min_row ex + 1) (max_col ex - min_col ex + 1) e g = g"
      if "e \<in> set ex" and "\<not> ?P e" for e g
    proof -
      have e: "e = ((r, c), snd e)" using that(2) by (cases e) auto
      have "\<not> (min_row ex \<le> r \<and> r < min_row ex + (max_row ex - min_row ex + 1) \<and>
               min_col ex \<le> c \<and> c < min_col ex + (max_col ex - min_col ex + 1))"
        using False by (auto simp: in_box_def)
      then show ?thesis by (subst e) (rule put_outside)
    qed
    have un: "untrimmed ?ex = untrimmed ex"
      unfolding untrimmed_eq(1)[OF ne] untrimmed_eq(1)[OF assms(2)] box
      by (rule fold_filter_id) (rule out)
    then have "sparse_to_dense ?ex = sparse_to_dense ex"
      by (simp only: untrimmed_eq(2)[OF ne] untrimmed_eq(2)[OF assms(2)])
    with False ch un show ?thesis by simp
  qed
  from cells out show ?thesis by blast
qed

theorem markers_in_box_witness:
  "distinct (map fst sample_map) \<and> free_coords sample_map \<noteq> {} \<and>
   ((0, 2), CHR ''X'') \<in> set sample_map \<and> \<not> in_box sample_map (0, 2) \<and>
   sparse_to_dense (filter (\<lambda>e. fst e \<noteq> (0, 2)) sample_map) = sparse_to_dense sample_map \<and>
   ((0, 1), CHR ''.'') \<in> set sample_map \<and> in_box sample_map (0, 1) \<and>
   untrimmed sample_map ! 0 ! 1 = CHR ''.'' \<and>
   sparse_to_dense sample_map = untrimmed sample_map"
proof -
  have d: "distinct (map fst sample_map)" by (simp add: sample_map_def)
  have m1: "((0, 2), CHR ''X'') \<in> set sample_map" and m2: "((0, 1), CHR ''.'') \<in> set sample_map"
    by (simp_all add: sample_map_def)
  have b1: "\<not> in_box sample_map (0, 2)" and b2: "in_box sample_map (0, 1)"
    by (simp_all add: in_box_def sample_box)
  from markers_in_box[OF d sample_box(1) m1] b1
  have "sparse_to_dense (filter (\<lambda>e. fst e \<noteq> (0, 2)) sample_map) = sparse_to_dense sample_map"
    by blast
  moreover from markers_in_box[OF d sample_box(1) m2] b2
  have "untrimmed sample_map ! 0 ! 1 = CHR ''.''"
    by (simp add: sample_box)
  moreover have "list_all (\<lambda>e. snd e \<noteq> CHR ''?'') sample_map" by (simp add: sample_map_def)
  then have "\<forall>e \<in> set sample_map. snd e \<noteq> CHR ''?''" by (simp only: list_all_iff)
  then have "sparse_to_dense sample_map = untrimmed sample_map"
    using markers_in_box[OF d sample_box(1) m2] by blast
  ultimately show ?thesis using d sample_box(1) m1 m2 b1 b2 by blast
qed

text \<open>
  Claim C8. On a grid whose rows all have \<open>w\<close> cells, border trimming drops the
  leading and trailing rows that are all \<open>?\<close>, then, judged on the rows that are
  left, the leading and trailing columns that are all \<open>?\<close>, and stops there; when no
  row is left the result is \<open>[[]]\<close>.
\<close>

theorem trim_unknown_border_rows_then_columns:
  assumes "\<forall>row \<in> set g. length row = w"
  shows "trim_unknown_border g =
           (if trim_rows g = [] then [[]] else trim_columns (trim_rows g) w)"
proof (cases "trim_rows g = []")
  case True
  then show ?thesis
    by (simp add: trim_unknown_border_def trim_rows_eq Let_def del: pop_back_unknown.simps)
next
  case False
  have "trim_unknown_border g =
      zip_star (pop_back_unknown (pop_front_unknown (zip_star (trim_rows g))))"
    using False
    by (simp add: trim_unknown_border_def trim_rows_eq Let_def del: pop_back_unknown.simps)
  also have "\<dots> = trim_columns (trim_rows g) w"
    by (rule trim_after_rows[OF assms False])
  finally show ?thesis using False by simp
qed

theorem trim_unknown_border_rows_then_columns_witness:
  "map length sample_grid = [3, 3, 3, 3] \<and>
   trim_rows sample_grid = [''?a?'', ''??b''] \<and>
   trim_unknown_border sample_grid = trim_columns (trim_rows sample_grid) 3 \<and>
   trim_unknown_border sample_grid = [''a?'', ''?b'']"
proof -
  have r: "\<forall>row \<in> set sample_grid. length row = 3" by (simp add: sample_grid_def)
  have t: "trim_rows sample_grid = [''?a?'', ''??b'']" by code_simp
  have v: "trim_unknown_border sample_grid = [''a?'', ''?b'']" by code_simp
  from trim_unknown_border_rows_then_columns[OF r] t
  have "trim_unknown_border sample_grid = trim_columns (trim_rows sample_grid) 3" by simp
  moreover have "map length sample_grid = [3, 3, 3, 3]" by (simp add: sample_grid_def)
  ultimately show ?thesis using t v by blast
qed

end
